theory Spec2Isabelle
  imports Complex_Main
begin

section \<open>Numbers\<close>

text \<open>
  The game computes with JavaScript numbers. They are modelled as exact reals; rounding,
  overflow to an infinity and the sign of zero are outside the model. Where a value can be
  \<open>NaN\<close> or \<open>undefined\<close> (the fields of an input command, the lateral offset they
  flow into, and the per-frame scratch fields of a road vertex, which are empty objects
  until the first projection) the type is \<open>jsnum\<close>: a real or \<open>NaN\<close>. \<open>undefined\<close>
  coerces to \<open>NaN\<close> in every arithmetic operation and comparison the code applies to
  it, so one constructor stands for both.
\<close>

datatype jsnum = NaN | Num real

fun jadd :: "jsnum \<Rightarrow> jsnum \<Rightarrow> jsnum" where
  "jadd (Num a) (Num b) = Num (a + b)"
| "jadd _ _ = NaN"

fun jsub :: "jsnum \<Rightarrow> jsnum \<Rightarrow> jsnum" where
  "jsub (Num a) (Num b) = Num (a - b)"
| "jsub _ _ = NaN"

fun jmul :: "jsnum \<Rightarrow> jsnum \<Rightarrow> jsnum" where
  "jmul (Num a) (Num b) = Num (a * b)"
| "jmul _ _ = NaN"

text \<open>Division is only used with a divisor the code has checked to be positive, or a
  non-zero constant.\<close>

fun jdiv :: "jsnum \<Rightarrow> jsnum \<Rightarrow> jsnum" where
  "jdiv (Num a) (Num b) = Num (a / b)"
| "jdiv _ _ = NaN"

text \<open>Every comparison with \<open>NaN\<close> is false.\<close>

fun jlt :: "jsnum \<Rightarrow> jsnum \<Rightarrow> bool" where
  "jlt (Num a) (Num b) = (a < b)"
| "jlt _ _ = False"

fun jle :: "jsnum \<Rightarrow> jsnum \<Rightarrow> bool" where
  "jle (Num a) (Num b) = (a \<le> b)"
| "jle _ _ = False"

definition jgt :: "jsnum \<Rightarrow> jsnum \<Rightarrow> bool" where
  "jgt a b = jlt b a"

definition jge :: "jsnum \<Rightarrow> jsnum \<Rightarrow> bool" where
  "jge a b = jle b a"

text \<open>\<open>Math.max\<close>, \<open>Math.min\<close>, \<open>Math.abs\<close> and \<open>Math.round\<close> return \<open>NaN\<close> on
  a \<open>NaN\<close> argument. \<open>Math.round\<close> rounds half up.\<close>

fun jmax :: "jsnum \<Rightarrow> jsnum \<Rightarrow> jsnum" where
  "jmax (Num a) (Num b) = Num (max a b)"
| "jmax _ _ = NaN"

fun jmin :: "jsnum \<Rightarrow> jsnum \<Rightarrow> jsnum" where
  "jmin (Num a) (Num b) = Num (min a b)"
| "jmin _ _ = NaN"

fun jabs :: "jsnum \<Rightarrow> jsnum" where
  "jabs (Num a) = Num \<bar>a\<bar>"
| "jabs NaN = NaN"

fun jround :: "jsnum \<Rightarrow> jsnum" where
  "jround (Num a) = Num (of_int \<lfloor>a + 1 / 2\<rfloor>)"
| "jround NaN = NaN"

text \<open>The number held by a value that a guard has shown not to be \<open>NaN\<close>.\<close>

fun numOf :: "jsnum \<Rightarrow> real" where
  "numOf (Num a) = a"

text \<open>\<open>a % n\<close> on integral numbers: the remainder has the sign of the dividend. For
  \<open>n = 0\<close> JavaScript gives \<open>NaN\<close>; the model's value is then never a valid index
  either, because the array indexed by it is empty.\<close>

definition js_rem :: "int \<Rightarrow> int \<Rightarrow> int" where
  "js_rem a n = (if 0 \<le> a then a mod n else - ((- a) mod n))"

text \<open>\<open>xs[i]\<close>: an index outside the array reads \<open>undefined\<close>.\<close>

definition lookup :: "'a list \<Rightarrow> int \<Rightarrow> 'a option" where
  "lookup xs i = (if 0 \<le> i \<and> i < int (length xs) then Some (xs ! nat i) else None)"

datatype error = TypeError

section \<open>Configuration\<close>

definition CAMERA_HEIGHT :: real where "CAMERA_HEIGHT = 1000"
definition CAMERA_DEPTH :: real where "CAMERA_DEPTH = 84 / 100"
definition SEGMENT_LENGTH :: real where "SEGMENT_LENGTH = 200"
definition DRAW_DISTANCE :: nat where "DRAW_DISTANCE = 300"
definition ROAD_WIDTH :: real where "ROAD_WIDTH = 2000"
definition MAX_SPEED :: real where "MAX_SPEED = 12000"
definition ACCEL :: real where "ACCEL = 100"
definition BRAKING :: real where "BRAKING = - 300"
definition DECEL :: real where "DECEL = - 50"
definition OFF_ROAD_DECEL :: real where "OFF_ROAD_DECEL = - 200"
definition TOTAL_SEGMENTS :: nat where "TOTAL_SEGMENTS = 2000"

section \<open>Data model\<close>

text \<open>A road vertex \<open>{world: {y, z}, camera: {}, screen: {}}\<close>. \<open>world.x\<close> is never
  set, so \<open>p.world.x || 0\<close> is 0.\<close>

record point =
  world_y :: real
  world_z :: real
  camera_x :: jsnum
  camera_y :: jsnum
  camera_z :: jsnum
  screen_scale :: jsnum
  screen_x :: jsnum
  screen_y :: jsnum
  screen_w :: jsnum

datatype sprite_type = tree

record sprite =
  offset :: real
  stype :: sprite_type

datatype car_type = Car | Truck

record car =
  offset :: real
  z :: real
  speed :: real
  percent :: real
  ctype :: car_type
  justPassed :: bool

datatype road_color = ROAD_DARK | ROAD_LIGHT

text \<open>A segment holds references to its cars; the car objects live in the store of the
  game, so that the reference kept in \<open>carsToMove\<close> and the one in the segment's array
  denote the same object.\<close>

record segment =
  index :: nat
  p1 :: point
  p2 :: point
  color :: road_color
  curve :: real
  cars :: "nat list"
  sprites :: "sprite list"

record command =
  steer :: jsnum
  accel :: jsnum
  brake :: jsnum

record game =
  width :: real
  height :: real
  position :: real
  playerX :: jsnum
  speed :: real
  score :: real
  distanceRun :: real
  segments :: "segment list"
  carStore :: "nat \<Rightarrow> car"
  isGameOver :: bool
  highScore :: int

section \<open>Simulation step\<close>

definition overlap :: "jsnum \<Rightarrow> real \<Rightarrow> real \<Rightarrow> real \<Rightarrow> bool" where
  "overlap x1 w1 x2 w2 =
     (let half1 = w1 / 2; half2 = w2 / 2;
          min1 = jsub x1 (Num half1); max1 = jadd x1 (Num half1);
          min2 = x2 - half2; max2 = x2 + half2
      in \<not> (jlt max1 (Num min2) \<or> jgt min1 (Num max2)))"

text \<open>\<open>crash\<close>: the sound and the game-over screen are not modelled. The best score
  is written to the local storage in the same statement that sets \<open>highScore\<close>, so the
  field stands for the persisted value as well.\<close>

definition crash :: "game \<Rightarrow> game" where
  "crash g =
     (let g1 = g\<lparr>speed := 0, isGameOver := True\<rparr>
      in if score g1 > of_int (highScore g1)
         then g1\<lparr>highScore := \<lfloor>score g1\<rfloor>\<rparr>
         else g1)"

text \<open>\<open>triggerCloseCall\<close>: the floating message is not modelled.\<close>

definition triggerCloseCall :: "game \<Rightarrow> game" where
  "triggerCloseCall g = g\<lparr>score := score g + 500\<rparr>"

definition findSegment :: "segment list \<Rightarrow> real \<Rightarrow> segment option" where
  "findSegment segs zz = lookup segs (js_rem \<lfloor>zz / SEGMENT_LENGTH\<rfloor> (int (length segs)))"

text \<open>The signed distance on the circular track, as \<open>updateTraffic\<close> and
  \<open>checkSpriteCollisions\<close> both compute it from the raw difference.\<close>

definition wrapDist :: "real \<Rightarrow> real \<Rightarrow> real" where
  "wrapDist trackLen d =
     (let d1 = (if d < - trackLen / 2 then d + trackLen else d)
      in if d1 > trackLen / 2 then d1 - trackLen else d1)"

text \<open>\<open>car.z += car.speed * dt\<close> and the two wrapping tests that follow it.\<close>

definition advanceZ :: "real \<Rightarrow> real \<Rightarrow> car \<Rightarrow> real" where
  "advanceZ dt trackLen c =
     (let z1 = z c + car.speed c * dt;
          z2 = (if z1 > trackLen then z1 - trackLen else z1)
      in if z2 < 0 then z2 + trackLen else z2)"

text \<open>The close-call test of one car at distance \<open>d\<close>: whether the bonus fires.\<close>

definition closeCallFires :: "jsnum \<Rightarrow> real \<Rightarrow> car \<Rightarrow> bool" where
  "closeCallFires px d c =
     (d < - 100 \<and> d > - 300 \<and> \<not> justPassed c \<and>
      (let lateralDist = jabs (jsub px (Num (car.offset c)))
       in jlt lateralDist (Num (8 / 10)) \<and> jgt lateralDist (Num (35 / 100))))"

text \<open>The flag after the close-call test and the reset that follows it.\<close>

definition passedFlag :: "jsnum \<Rightarrow> real \<Rightarrow> car \<Rightarrow> bool" where
  "passedFlag px d c =
     (let jp = (if closeCallFires px d c then True else justPassed c)
      in if \<bar>d\<bar> > 1000 then False else jp)"

text \<open>The collision test of one car at distance \<open>d\<close>.\<close>

definition carCollides :: "jsnum \<Rightarrow> real \<Rightarrow> car \<Rightarrow> bool" where
  "carCollides px d c =
     (\<bar>d\<bar> < 200 \<and> (let carW = 45 / 100; playerW = 15 / 100
                       in overlap px playerW (car.offset c) carW))"

type_synonym move = "nat \<times> nat \<times> int"

text \<open>The body of the inner loop of \<open>updateTraffic\<close> for the car referenced by \<open>a\<close> in
  segment \<open>i\<close>. \<open>moves\<close> is \<open>carsToMove\<close>.\<close>

definition carStep :: "real \<Rightarrow> real \<Rightarrow> real \<Rightarrow> nat \<Rightarrow> nat \<Rightarrow> nat \<Rightarrow> game \<times> move list \<Rightarrow> game \<times> move list" where
  "carStep dt playerZ trackLen n i a st =
     (let g = fst st; moves = snd st;
          c = carStore g a;
          c1 = c\<lparr>z := advanceZ dt trackLen c\<rparr>;
          actualSegmentIndex = js_rem \<lfloor>z c1 / SEGMENT_LENGTH\<rfloor> (int n);
          moves1 = (if int i \<noteq> actualSegmentIndex then moves @ [(a, i, actualSegmentIndex)] else moves);
          d = wrapDist trackLen (z c1 - playerZ);
          g1 = (if closeCallFires (playerX g) d c1 then triggerCloseCall g else g);
          c2 = c1\<lparr>justPassed := passedFlag (playerX g) d c1\<rparr>;
          g2 = g1\<lparr>carStore := (carStore g1)(a := c2)\<rparr>;
          g3 = (if carCollides (playerX g2) d c2 then crash g2 else g2)
      in (g3, moves1))"

text \<open>The first loop of \<open>updateTraffic\<close>, over the segments and the cars of each.\<close>

definition trafficLoop :: "real \<Rightarrow> real \<Rightarrow> real \<Rightarrow> game \<Rightarrow> game \<times> move list" where
  "trafficLoop dt playerZ trackLen g =
     fold (\<lambda>i. fold (carStep dt playerZ trackLen (length (segments g)) i) (cars (segments g ! i)))
       [0 ..< length (segments g)] (g, [])"

text \<open>The second loop: \<open>indexOf\<close>, \<open>splice\<close>, \<open>push\<close>. Pushing to a segment that
  does not exist raises a TypeError.\<close>

fun applyMoves :: "move list \<Rightarrow> segment list \<Rightarrow> error + segment list" where
  "applyMoves [] segs = Inr segs"
| "applyMoves ((a, from, to) # ms) segs =
     (if a \<in> set (cars (segs ! from))
      then (let segs1 = segs[from := (segs ! from)\<lparr>cars := remove1 a (cars (segs ! from))\<rparr>]
            in case lookup segs1 to of
                 None \<Rightarrow> Inl TypeError
               | Some toSeg \<Rightarrow>
                   applyMoves ms (segs1[nat to := toSeg\<lparr>cars := cars toSeg @ [a]\<rparr>]))
      else applyMoves ms segs)"

text \<open>The last statement of \<open>updateTraffic\<close>: the score for the distance covered.\<close>

definition scoreTick :: "real \<Rightarrow> game \<Rightarrow> game" where
  "scoreTick dt g = (if speed g > 0 then g\<lparr>score := score g + (speed g / 1000) * dt * 10\<rparr> else g)"

definition updateTraffic :: "real \<Rightarrow> game \<Rightarrow> error + game" where
  "updateTraffic dt g =
     (let playerZ = position g + CAMERA_HEIGHT;
          trackLen = real (length (segments g)) * SEGMENT_LENGTH;
          st = trafficLoop dt playerZ trackLen g;
          g1 = fst st
      in case applyMoves (snd st) (segments g1) of
           Inl e \<Rightarrow> Inl e
         | Inr segs \<Rightarrow> Inr (scoreTick dt (g1\<lparr>segments := segs\<rparr>)))"

text \<open>Whether the player hits a sprite of the segment.\<close>

definition spriteHit :: "game \<Rightarrow> real \<Rightarrow> real \<Rightarrow> segment \<Rightarrow> bool" where
  "spriteHit g playerZ trackLen seg =
     (\<exists>s \<in> set (sprites seg).
        \<bar>wrapDist trackLen (world_z (p1 seg) - playerZ)\<bar> < 100 \<and>
        (let spriteW = 3 / 10; playerW = 15 / 100
         in overlap (playerX g) playerW (sprite.offset s) spriteW))"

text \<open>The loop of \<open>checkSpriteCollisions\<close> over the neighbour offsets \<open>-1 .. 2\<close>; it
  returns at the first hit.\<close>

fun spriteScan :: "int list \<Rightarrow> int \<Rightarrow> real \<Rightarrow> real \<Rightarrow> game \<Rightarrow> error + game" where
  "spriteScan [] startSegIndex playerZ trackLen g = Inr g"
| "spriteScan (i # is) startSegIndex playerZ trackLen g =
     (let n = int (length (segments g));
          idx = js_rem (startSegIndex + i + n) n
      in case lookup (segments g) idx of
           None \<Rightarrow> Inl TypeError
         | Some seg \<Rightarrow>
             if spriteHit g playerZ trackLen seg then Inr (crash g)
             else spriteScan is startSegIndex playerZ trackLen g)"

definition checkSpriteCollisions :: "game \<Rightarrow> error + game" where
  "checkSpriteCollisions g =
     (let playerZ = position g + CAMERA_HEIGHT;
          trackLen = real (length (segments g)) * SEGMENT_LENGTH;
          startSegIndex = js_rem \<lfloor>playerZ / SEGMENT_LENGTH\<rfloor> (int (length (segments g)))
      in spriteScan [-1, 0, 1, 2] startSegIndex playerZ trackLen g)"

text \<open>The speed after the accelerate / brake / drag rule and the clamp.\<close>

definition throttle :: "real \<Rightarrow> command \<Rightarrow> real \<Rightarrow> real" where
  "throttle dt cmd v =
     (let v1 = (if jgt (accel cmd) (Num 0) then v + ACCEL * numOf (accel cmd) * dt * 60
                else if jgt (brake cmd) (Num 0) then v + BRAKING * dt * 60
                else v + DECEL * dt * 60)
      in max 0 (min v1 MAX_SPEED))"

text \<open>The part of \<open>update\<close> between reading the command and the call of
  \<open>updateTraffic\<close>: speed, lateral offset, off-road penalty, position. \<open>playerSegment\<close>
  is the segment \<open>findSegment\<close> has returned.\<close>

definition updatePlayer :: "real \<Rightarrow> command \<Rightarrow> segment \<Rightarrow> game \<Rightarrow> game" where
  "updatePlayer dt cmd playerSegment g =
     (let ratio = speed g / MAX_SPEED;
          speed1 = throttle dt cmd (speed g);
          dx = jmul (jmul (Num (dt * 2)) (steer cmd)) (Num (speed1 / MAX_SPEED));
          playerX1 = jsub (playerX g) dx;
          playerX2 = jsub playerX1 (jmul (jmul (jmul dx (Num (curve playerSegment))) (Num ratio)) (Num (1 / 10)));
          speed2 = (if (jlt playerX2 (Num (- 1)) \<or> jgt playerX2 (Num 1)) \<and> speed1 > 2000
                    then speed1 + OFF_ROAD_DECEL * dt * 60 else speed1);
          playerX3 = jmax (Num (- 2)) (jmin (Num 2) playerX2);
          position1 = position g + speed2 * dt;
          distanceRun1 = distanceRun g + speed2 * dt;
          trackLength = real (length (segments g)) * SEGMENT_LENGTH;
          position2 = (if position1 \<ge> trackLength then position1 - trackLength else position1);
          position3 = (if position2 < 0 then position2 + trackLength else position2)
      in g\<lparr>speed := speed2, playerX := playerX3, position := position3,
            distanceRun := distanceRun1\<rparr>)"

text \<open>\<open>update\<close>: the command is a parameter; the calls to the audio engine and the
  HUD are not modelled. Reading \<open>curve\<close> of a segment that does not exist raises a
  TypeError.\<close>

definition update :: "real \<Rightarrow> command \<Rightarrow> game \<Rightarrow> error + game" where
  "update dt cmd g =
     (if isGameOver g then Inr g
      else case findSegment (segments g) (position g + CAMERA_DEPTH * SEGMENT_LENGTH) of
             None \<Rightarrow> Inl TypeError
           | Some playerSegment \<Rightarrow>
               (case updateTraffic dt (updatePlayer dt cmd playerSegment g) of
                  Inl e \<Rightarrow> Inl e
                | Inr g2 \<Rightarrow> checkSpriteCollisions g2))"

text \<open>A sequence of ticks, each with its elapsed time and its command; an exception
  ends the frame loop.\<close>

fun run :: "(real \<times> command) list \<Rightarrow> game \<Rightarrow> error + game" where
  "run [] g = Inr g"
| "run ((dt, cmd) # ticks) g =
     (case update dt cmd g of Inl e \<Rightarrow> Inl e | Inr g1 \<Rightarrow> run ticks g1)"

text \<open>The states the ticks of a sequence leave, in their order.\<close>

fun trace :: "(real \<times> command) list \<Rightarrow> game \<Rightarrow> error + game list" where
  "trace [] g = Inr []"
| "trace ((dt, cmd) # ticks) g =
     (case update dt cmd g of
        Inl e \<Rightarrow> Inl e
      | Inr g1 \<Rightarrow> (case trace ticks g1 of Inl e \<Rightarrow> Inl e | Inr gs \<Rightarrow> Inr (g1 # gs)))"

section \<open>Track construction\<close>

definition curveAt :: "nat \<Rightarrow> real" where
  "curveAt i =
     (if i > 100 \<and> i < 300 then 2
      else if i > 500 \<and> i < 700 then - 3
      else if i > 1000 \<and> i < 1200 then 4
      else if i > 1500 \<and> i < 1700 then - 2
      else 0)"

definition newPoint :: "real \<Rightarrow> point" where
  "newPoint wz =
     \<lparr>world_y = 0, world_z = wz, camera_x = NaN, camera_y = NaN, camera_z = NaN,
      screen_scale = NaN, screen_x = NaN, screen_y = NaN, screen_w = NaN\<rparr>"

text \<open>The segment literal pushed by \<open>resetRoad\<close>.\<close>

definition newSegment :: "nat \<Rightarrow> segment" where
  "newSegment i =
     \<lparr>index = i,
      p1 = newPoint (real i * SEGMENT_LENGTH),
      p2 = newPoint (real (i + 1) * SEGMENT_LENGTH),
      color = (if (i div 3) mod 2 \<noteq> 0 then ROAD_DARK else ROAD_LIGHT),
      curve = curveAt i, cars = [], sprites = []\<rparr>"

text \<open>\<open>Math.random\<close> is a sequence of numbers of \<open>[0, 1)\<close>, of which \<open>resetRoad\<close>
  consumes a prefix: the state of the construction carries the number of calls made so
  far. \<open>randomInt\<close> takes the number drawn.\<close>

definition randomInt :: "real \<Rightarrow> int \<Rightarrow> int \<Rightarrow> int" where
  "randomInt r mn mx = \<lfloor>r * of_int (mx - mn + 1)\<rfloor> + mn"

record road =
  rsegments :: "segment list"
  rstore :: "nat \<Rightarrow> car"
  rcalls :: nat

text \<open>\<open>addCar\<close>: the new car object is referenced by the index of the segment it is
  created on (\<open>resetRoad\<close> creates at most one car per segment, so the reference is
  fresh). \<open>r\<close> is the number drawn for the type.\<close>

definition addCar :: "nat \<Rightarrow> real \<Rightarrow> real \<Rightarrow> real \<Rightarrow> road \<Rightarrow> road" where
  "addCar segmentIndex off spd r rd =
     rd\<lparr>rsegments := (rsegments rd)[segmentIndex :=
            (rsegments rd ! segmentIndex)\<lparr>cars := cars (rsegments rd ! segmentIndex) @ [segmentIndex]\<rparr>],
        rstore := (rstore rd)(segmentIndex :=
            \<lparr>offset = off, z = real segmentIndex * SEGMENT_LENGTH, speed = spd, percent = 0,
             ctype = (if r > 1 / 2 then Car else Truck), justPassed = False\<rparr>)\<rparr>"

definition addSprite :: "nat \<Rightarrow> real \<Rightarrow> sprite_type \<Rightarrow> road \<Rightarrow> road" where
  "addSprite segmentIndex off ty rd =
     rd\<lparr>rsegments := (rsegments rd)[segmentIndex :=
            (rsegments rd ! segmentIndex)\<lparr>sprites := sprites (rsegments rd ! segmentIndex) @
               [\<lparr>sprite.offset = off, stype = ty\<rparr>]\<rparr>]\<rparr>"

definition lanes :: "real list" where
  "lanes = [- (65 / 100), 0, 65 / 100]"

text \<open>The first conditional of the loop body of \<open>resetRoad\<close>, which may create a
  car on the segment just pushed. The draws are made in the order of the code: the spawn
  test, the lane, the speed, the type. The lane index is within \<open>lanes\<close> for a number
  of \<open>[0, 1)\<close>.\<close>

definition spawn :: "(nat \<Rightarrow> real) \<Rightarrow> nat \<Rightarrow> road \<Rightarrow> road" where
  "spawn rnd i rd1 =
     (if i > 20 \<and> i mod 40 = 0
      then (let k = rcalls rd1
            in if rnd k > 3 / 10
               then addCar i (lanes ! nat \<lfloor>rnd (k + 1) * 3\<rfloor>)
                      (of_int (randomInt (rnd (k + 2)) 3000 8000)) (rnd (k + 3))
                      (rd1\<lparr>rcalls := k + 4\<rparr>)
               else rd1\<lparr>rcalls := k + 1\<rparr>)
      else rd1)"

text \<open>One iteration of the loop of \<open>resetRoad\<close>: the segment is pushed, a car may be
  created, and then a tree (the scenery test, the side, the distance from the road).\<close>

definition resetRoadStep :: "(nat \<Rightarrow> real) \<Rightarrow> nat \<Rightarrow> road \<Rightarrow> road" where
  "resetRoadStep rnd i rd0 =
     (let rd2 = spawn rnd i (rd0\<lparr>rsegments := rsegments rd0 @ [newSegment i]\<rparr>)
      in if i mod 20 = 0
         then (let k = rcalls rd2
               in if rnd k > 2 / 10
                  then (let side = (if rnd (k + 1) > 1 / 2 then 1 else - 1)
                        in addSprite i (side * (15 / 10 + rnd (k + 2))) tree
                             (rd2\<lparr>rcalls := k + 3\<rparr>))
                  else rd2\<lparr>rcalls := k + 1\<rparr>)
         else rd2)"

definition resetRoad :: "(nat \<Rightarrow> real) \<Rightarrow> (nat \<Rightarrow> car) \<Rightarrow> road" where
  "resetRoad rnd store =
     fold (resetRoadStep rnd) [0 ..< TOTAL_SEGMENTS] \<lparr>rsegments = [], rstore = store, rcalls = 0\<rparr>"

text \<open>\<open>restart\<close>: the road is rebuilt and the player state reset; the best score and
  the size of the canvas stay.\<close>

definition restart :: "(nat \<Rightarrow> real) \<Rightarrow> game \<Rightarrow> game" where
  "restart rnd g =
     (let rd = resetRoad rnd (carStore g)
      in g\<lparr>segments := rsegments rd, carStore := rstore rd, speed := 0, score := 0,
            distanceRun := 0, position := 0, playerX := Num 0, isGameOver := False\<rparr>)"

text \<open>What the store holds at a reference no car has been created for. No segment
  refers to it.\<close>

definition noCar :: car where
  "noCar = \<lparr>offset = 0, z = 0, speed = 0, percent = 0, ctype = Car, justPassed = False\<rparr>"

text \<open>The constructor: the size of the window and the best score read from the local
  storage are parameters; no car object exists before the road is built.\<close>

definition newGame :: "real \<Rightarrow> real \<Rightarrow> int \<Rightarrow> (nat \<Rightarrow> real) \<Rightarrow> game" where
  "newGame w h best rnd =
     (let rd = resetRoad rnd (\<lambda>_. noCar)
      in \<lparr>width = w, height = h, position = 0, playerX = Num 0, speed = 0, score = 0,
          distanceRun = 0, segments = rsegments rd, carStore = rstore rd, isGameOver = False,
          highScore = best\<rparr>)"

text \<open>The elapsed time \<open>step\<close> passes to \<open>update\<close>, from the time stamp of the frame
  and that of the previous one, in milliseconds.\<close>

definition elapsed :: "real \<Rightarrow> real \<Rightarrow> real" where
  "elapsed now lastTime = min 1 ((now - lastTime) / 1000)"

section \<open>Projection and the road pass of the renderer\<close>

text \<open>\<open>Utils.project\<close>. \<open>cameraX\<close> depends on the lateral offset of the player, so it
  may be \<open>NaN\<close>; the other arguments are numbers.\<close>

definition project :: "point \<Rightarrow> jsnum \<Rightarrow> real \<Rightarrow> real \<Rightarrow> real \<Rightarrow> real \<Rightarrow> real \<Rightarrow> real \<Rightarrow> point" where
  "project p cameraX cameraY cameraZ cameraDepth w h roadWidth =
     (let cx = jsub (Num 0) cameraX;
          cy = world_y p - cameraY;
          cz = world_z p - cameraZ;
          q = p\<lparr>camera_x := cx, camera_y := Num cy, camera_z := Num cz\<rparr>
      in if cz \<le> 0 then q\<lparr>screen_scale := Num 0\<rparr>
         else (let scale = cameraDepth / cz
               in q\<lparr>screen_scale := Num scale,
                    screen_x := jround (jadd (Num (w / 2)) (jdiv (jmul (jmul (Num scale) cx) (Num w)) (Num 2))),
                    screen_y := jround (Num (h / 2 - scale * cy * h / 2)),
                    screen_w := jround (Num (scale * roadWidth * w / 2))\<rparr>))"

text \<open>\<open>n % total\<close> on numbers that need not be integral; \<open>total\<close> is the segment
  length.\<close>

definition js_fmod :: "real \<Rightarrow> real \<Rightarrow> real" where
  "js_fmod a b = a - b * of_int (if 0 \<le> a / b then \<lfloor>a / b\<rfloor> else \<lceil>a / b\<rceil>)"

definition percentRemaining :: "real \<Rightarrow> real \<Rightarrow> real" where
  "percentRemaining n tot = js_fmod n tot / tot"

definition interpolate :: "real \<Rightarrow> real \<Rightarrow> real \<Rightarrow> real" where
  "interpolate a b pct = a + (b - a) * pct"

text \<open>The state of the first loop of \<open>render\<close>. \<open>rs_drawn\<close> lists the segments
  passed to \<open>renderSegment\<close>, in the order of the calls.\<close>

record renderState =
  rs_segments :: "segment list"
  rs_x :: real
  rs_dx :: real
  rs_maxY :: jsnum
  rs_drawn :: "segment list"

definition roadStep :: "game \<Rightarrow> segment \<Rightarrow> real \<Rightarrow> nat \<Rightarrow> renderState \<Rightarrow> renderState" where
  "roadStep g baseSegment playerY n st =
     (let segs = rs_segments st;
          k = (index baseSegment + n) mod length segs;
          segment = segs ! k;
          looped = (index segment < index baseSegment);
          x1 = rs_x st + rs_dx st;
          dx1 = rs_dx st + curve segment;
          segmentLoopOffset = (if looped then real (length segs) * SEGMENT_LENGTH else 0);
          cameraX = jsub (jmul (playerX g) (Num ROAD_WIDTH)) (Num x1);
          q1 = project (p1 segment) cameraX (playerY + CAMERA_HEIGHT) (position g - segmentLoopOffset)
                 CAMERA_DEPTH (width g) (height g) ROAD_WIDTH;
          q2 = project (p2 segment) (jsub cameraX (Num dx1)) (playerY + CAMERA_HEIGHT)
                 (position g - segmentLoopOffset) CAMERA_DEPTH (width g) (height g) ROAD_WIDTH;
          segment1 = segment\<lparr>p1 := q1, p2 := q2\<rparr>;
          st1 = st\<lparr>rs_segments := segs[k := segment1], rs_x := x1, rs_dx := dx1\<rparr>
      in if jle (camera_z q1) (Num CAMERA_DEPTH) \<or> jge (screen_y q2) (rs_maxY st) \<or>
            jge (screen_y q2) (screen_y q1)
         then st1
         else st1\<lparr>rs_maxY := screen_y q1, rs_drawn := rs_drawn st1 @ [segment1]\<rparr>)"

text \<open>\<open>render\<close>, up to the end of the road pass: the segments with their scratch fields
  overwritten, and the segments drawn. The passes that follow draw sprites, cars, speed
  lines and the cockpit.\<close>

definition render :: "game \<Rightarrow> error + segment list \<times> segment list" where
  "render g =
     (case findSegment (segments g) (position g) of
        None \<Rightarrow> Inl TypeError
      | Some baseSegment \<Rightarrow>
          (case findSegment (segments g) (position g + CAMERA_DEPTH * SEGMENT_LENGTH) of
             None \<Rightarrow> Inl TypeError
           | Some playerSegment \<Rightarrow>
               (let basePercent = percentRemaining (position g) SEGMENT_LENGTH;
                    playerPercent = percentRemaining (position g + CAMERA_DEPTH * SEGMENT_LENGTH) SEGMENT_LENGTH;
                    playerY = interpolate (world_y (p1 playerSegment)) (world_y (p2 playerSegment)) playerPercent;
                    st = fold (roadStep g baseSegment playerY) [0 ..< DRAW_DISTANCE]
                           \<lparr>rs_segments = segments g, rs_x = 0,
                            rs_dx = - (curve baseSegment * basePercent),
                            rs_maxY = Num (height g), rs_drawn = []\<rparr>
                in Inr (rs_segments st, rs_drawn st))))"

section \<open>Specification predicates\<close>

text \<open>The car objects referenced from the road.\<close>

definition carSet :: "segment list \<Rightarrow> nat set" where
  "carSet segs = (\<Union>s \<in> set segs. set (cars s))"

text \<open>No car is referenced twice: neither within one segment nor from two segments.\<close>

definition singleOwner :: "segment list \<Rightarrow> bool" where
  "singleOwner segs \<longleftrightarrow>
     (\<forall>i<length segs. distinct (cars (segs ! i))) \<and>
     (\<forall>i<length segs. \<forall>j<length segs. i \<noteq> j \<longrightarrow> set (cars (segs ! i)) \<inter> set (cars (segs ! j)) = {})"

text \<open>Every car is referenced from the segment its depth falls into.\<close>

definition ownerIndex :: "game \<Rightarrow> bool" where
  "ownerIndex g \<longleftrightarrow>
     (\<forall>i<length (segments g). \<forall>a \<in> set (cars (segments g ! i)).
        int i = js_rem \<lfloor>z (carStore g a) / SEGMENT_LENGTH\<rfloor> (int (length (segments g))))"

text \<open>The road is not empty, and its cars are at a non-negative depth and do not
  drive backwards.\<close>

definition carsOK :: "game \<Rightarrow> bool" where
  "carsOK g \<longleftrightarrow> 0 < length (segments g) \<and>
     (\<forall>a \<in> carSet (segments g). 0 \<le> z (carStore g a) \<and> 0 \<le> car.speed (carStore g a))"

text \<open>The numbers \<open>Math.random\<close> may return.\<close>

definition randomOK :: "(nat \<Rightarrow> real) \<Rightarrow> bool" where
  "randomOK rnd \<longleftrightarrow> (\<forall>k. 0 \<le> rnd k \<and> rnd k < 1)"

text \<open>The elapsed times the frame loop passes: \<open>Math.min(1, \<dots>)\<close> of a difference of
  two time stamps.\<close>

definition ticksOK :: "(real \<times> command) list \<Rightarrow> bool" where
  "ticksOK ticks \<longleftrightarrow> (\<forall>t \<in> set ticks. 0 \<le> fst t \<and> fst t \<le> 1)"

text \<open>The command values within the reach of the model. The numbers of the model are
  reals: a product of the step that overflows to an infinity has no counterpart. With a
  steering or accelerate value of magnitude up to \<open>10^300\<close> every product of \<open>update\<close>
  stays within the range of a double. The brake value is only compared with 0.\<close>

definition noOverflow :: "jsnum \<Rightarrow> bool" where
  "noOverflow v = (case v of NaN \<Rightarrow> True | Num r \<Rightarrow> \<bar>r\<bar> \<le> 10 ^ 300)"

text \<open>The signed distance on the circular track from the player, whose depth is
  \<open>position + CAMERA_HEIGHT\<close>, to a car: the \<open>dist\<close> of \<open>updateTraffic\<close>, read off
  the state a step leaves (the step takes it after it has advanced both the position and
  the depth of the car).\<close>

definition relDepth :: "game \<Rightarrow> nat \<Rightarrow> real" where
  "relDepth g a =
     wrapDist (real (length (segments g)) * SEGMENT_LENGTH) (z (carStore g a) - (position g + CAMERA_HEIGHT))"

text \<open>The lateral distance between the player and a car lies strictly between 0.35 and
  0.8.\<close>

definition inBand :: "game \<Rightarrow> nat \<Rightarrow> bool" where
  "inBand g a =
     (case playerX g of
        NaN \<Rightarrow> False
      | Num x \<Rightarrow> 35 / 100 < \<bar>x - car.offset (carStore g a)\<bar> \<and> \<bar>x - car.offset (carStore g a)\<bar> < 8 / 10)"

text \<open>The step from \<open>g\<close> to \<open>g'\<close> is a close call with the car \<open>a\<close>: the step is not
  skipped, the flag of the car is clear when the step begins, and the step finds the car
  in the window behind the player and in the lateral band.\<close>

definition closeCall :: "game \<Rightarrow> game \<Rightarrow> nat \<Rightarrow> bool" where
  "closeCall g g' a \<longleftrightarrow>
     \<not> isGameOver g \<and> \<not> justPassed (carStore g a) \<and>
     - 300 < relDepth g' a \<and> relDepth g' a < - 100 \<and> inBand g' a"

subsection \<open>Auxiliary notions\<close>

definition carPairs :: "segment list \<Rightarrow> (nat \<times> nat) list" where
  "carPairs segs = concat (map (\<lambda>i. map (Pair i) (cars (segs ! i))) [0 ..< length segs])"

definition actualIndex :: "real \<Rightarrow> real \<Rightarrow> nat \<Rightarrow> car \<Rightarrow> int" where
  "actualIndex dt tlen n c = js_rem \<lfloor>advanceZ dt tlen c / SEGMENT_LENGTH\<rfloor> (int n)"

definition movesOf :: "real \<Rightarrow> real \<Rightarrow> nat \<Rightarrow> (nat \<Rightarrow> car) \<Rightarrow> (nat \<times> nat) list \<Rightarrow> move list" where
  "movesOf dt tlen n store ps =
     map (\<lambda>p. (snd p, fst p, actualIndex dt tlen n (store (snd p))))
       (filter (\<lambda>p. int (fst p) \<noteq> actualIndex dt tlen n (store (snd p))) ps)"

abbreviation carLoop :: "real \<Rightarrow> real \<Rightarrow> real \<Rightarrow> nat \<Rightarrow> (nat \<times> nat) list \<Rightarrow> game \<times> move list \<Rightarrow> game \<times> move list" where
  "carLoop dt pz tlen n ps st \<equiv> fold (\<lambda>p. carStep dt pz tlen n (fst p) (snd p)) ps st"

definition movesInv :: "(nat \<Rightarrow> int) \<Rightarrow> segment list \<Rightarrow> move list \<Rightarrow> bool" where
  "movesInv act segs ms \<longleftrightarrow>
     (\<forall>i<length segs. distinct (cars (segs ! i))) \<and>
     (\<forall>i<length segs. \<forall>j<length segs. i \<noteq> j \<longrightarrow> set (cars (segs ! i)) \<inter> set (cars (segs ! j)) = {}) \<and>
     (\<forall>m \<in> set ms. fst (snd m) < length segs \<and> 0 \<le> snd (snd m) \<and> snd (snd m) < int (length segs) \<and>
         snd (snd m) = act (fst m) \<and> int (fst (snd m)) \<noteq> snd (snd m) \<and>
         fst m \<in> set (cars (segs ! fst (snd m)))) \<and>
     distinct (map fst ms) \<and>
     (\<forall>i<length segs. \<forall>a \<in> set (cars (segs ! i)). int i = act a \<or> (a, i, act a) \<in> set ms)"

text \<open>The invariant of the running game: the road has its full length, the position
  is normalised, and every car is referenced once, from the segment of its depth.\<close>

definition roadInv :: "game \<Rightarrow> bool" where
  "roadInv g \<longleftrightarrow>
     length (segments g) = TOTAL_SEGMENTS \<and>
     0 \<le> position g \<and> position g < real TOTAL_SEGMENTS * SEGMENT_LENGTH \<and>
     carsOK g \<and> singleOwner (segments g) \<and> ownerIndex g"

text \<open>The road under construction, after \<open>m\<close> iterations: a segment has no car, or
  the one created on it.\<close>

definition buildInv :: "nat \<Rightarrow> road \<Rightarrow> bool" where
  "buildInv m rd \<longleftrightarrow>
     length (rsegments rd) = m \<and>
     (\<forall>i<m. cars (rsegments rd ! i) = [] \<or>
        (cars (rsegments rd ! i) = [i] \<and> z (rstore rd i) = real i * SEGMENT_LENGTH \<and>
         0 \<le> car.speed (rstore rd i)))"

text \<open>What a step does to the flag of a car.\<close>

definition flagStep :: "nat \<Rightarrow> game \<Rightarrow> game \<Rightarrow> bool" where
  "flagStep a g g' \<longleftrightarrow>
     (if isGameOver g then g' = g
      else (justPassed (carStore g' a) \<longleftrightarrow>
              \<bar>relDepth g' a\<bar> \<le> 1000 \<and> (justPassed (carStore g a) \<or> closeCall g g' a)))"

subsection \<open>Concrete states\<close>

text \<open>A game object before its road is built.\<close>

definition blankGame :: game where
  "blankGame =
     \<lparr>width = 1280, height = 720, position = 0, playerX = Num 0, speed = 0, score = 0,
      distanceRun = 0, segments = [], carStore = (\<lambda>_. noCar), isGameOver = False,
      highScore = 0\<rparr>"

text \<open>The full road without cars and scenery (what \<open>resetRoad\<close> builds when no spawn
  test succeeds), with the player at a given position, lateral offset and speed.\<close>

definition openRoad :: "real \<Rightarrow> jsnum \<Rightarrow> real \<Rightarrow> game" where
  "openRoad pos px v =
     blankGame\<lparr>segments := map newSegment [0 ..< TOTAL_SEGMENTS],
               position := pos, playerX := px, speed := v\<rparr>"

text \<open>Two commands outside the documented ranges: one with numbers that are too large
  and no brake value, one without steering and accelerate values.\<close>

definition wildCommand :: command where
  "wildCommand = \<lparr>steer = Num 7, accel = Num (10 ^ 300), brake = NaN\<rparr>"

definition nanCommand :: command where
  "nanCommand = \<lparr>steer = NaN, accel = NaN, brake = Num (- 3)\<rparr>"

text \<open>The same road as a road under construction, to which cars can be added with
  \<open>addCar\<close>, and a game on a given road.\<close>

definition emptyRoad :: road where
  "emptyRoad = \<lparr>rsegments = map newSegment [0 ..< TOTAL_SEGMENTS], rstore = (\<lambda>_. noCar), rcalls = 0\<rparr>"

definition roadGame :: "road \<Rightarrow> real \<Rightarrow> jsnum \<Rightarrow> real \<Rightarrow> game" where
  "roadGame rd pos px v =
     blankGame\<lparr>segments := rsegments rd, carStore := rstore rd,
               position := pos, playerX := px, speed := v\<rparr>"

text \<open>Two cars side by side in the outer lanes, on segments 5 and 6.\<close>

definition twoCars :: road where
  "twoCars = addCar 6 (65 / 100) 3200 (9 / 10) (addCar 5 (- (65 / 100)) 3200 (1 / 10) emptyRoad)"

text \<open>One car in the middle lane on segment 5, and one car at full speed on segment
  1960, 8000 units before the end of the track.\<close>

definition oneCar :: road where
  "oneCar = addCar 5 0 3200 (9 / 10) emptyRoad"

definition lastCar :: road where
  "lastCar = addCar 1960 0 8000 (9 / 10) emptyRoad"

text \<open>The player about to run into the car of \<open>oneCar\<close>, with a score above the best
  score.\<close>

definition crashScene :: game where
  "crashScene = (roadGame oneCar 50 (Num 0) 12000)\<lparr>score := 12345 / 10, highScore := 1000\<rparr>"

text \<open>A car in the middle lane on segment 6, at speed 5600; the player at full speed half
  a lane to its right and 50 units behind it; and eight ticks with the steering centred:
  four short ticks in which the player passes the car, one tick of a second that takes
  the player far ahead, and three ticks with the brake held, in which the player stops and
  the car catches up.\<close>

definition midCar :: road where
  "midCar = addCar 6 0 5600 (9 / 10) emptyRoad"

definition fullThrottle :: command where
  "fullThrottle = \<lparr>steer = Num 0, accel = Num 1, brake = Num 0\<rparr>"

definition fullBrake :: command where
  "fullBrake = \<lparr>steer = Num 0, accel = Num 0, brake = Num 1\<rparr>"

definition passScene :: game where
  "passScene = roadGame midCar 150 (Num (1 / 2)) 12000"

definition passTicks :: "(real \<times> command) list" where
  "passTicks = [(1 / 64, fullThrottle), (1 / 64, fullThrottle), (1 / 64, fullThrottle),
                (1 / 64, fullThrottle), (1, fullThrottle), (1, fullBrake), (1 / 8, fullBrake),
                (1 / 32, fullBrake)]"

text \<open>The first five iterations of the road pass, for a player at the start of the road
  without obstacles.\<close>

definition firstFive :: renderState where
  "firstFive = fold (roadStep (openRoad 0 (Num 0) 0) (newSegment 0) 0) [0, 1, 2, 3, 4]
     \<lparr>rs_segments = segments (openRoad 0 (Num 0) 0), rs_x = 0, rs_dx = 0,
      rs_maxY = Num (height (openRoad 0 (Num 0) 0)), rs_drawn = []\<rparr>"

section \<open>Properties\<close>

lemmas CONFIG = CAMERA_HEIGHT_def CAMERA_DEPTH_def SEGMENT_LENGTH_def DRAW_DISTANCE_def
  ROAD_WIDTH_def MAX_SPEED_def ACCEL_def BRAKING_def DECEL_def OFF_ROAD_DECEL_def
  TOTAL_SEGMENTS_def

subsection \<open>Numbers and frame conditions\<close>

lemma jgt_Num [simp]: "jgt (Num a) (Num b) = (b < a)"
  by (simp add: jgt_def)
lemma jgt_NaN [simp]: "jgt NaN b = False" "jgt a NaN = False"
  by (cases b; simp add: jgt_def)+
lemma jlt_NaN2 [simp]: "jlt a NaN = False"
  by (cases a) simp_all

lemma crash_frame [simp]:
  "segments (crash g) = segments g" "carStore (crash g) = carStore g"
  "playerX (crash g) = playerX g" "position (crash g) = position g"
  "score (crash g) = score g" "isGameOver (crash g)" "speed (crash g) = 0"
  "width (crash g) = width g" "height (crash g) = height g" "distanceRun (crash g) = distanceRun g"
  by (simp_all add: crash_def Let_def)

lemma scoreTick_frame [simp]:
  "segments (scoreTick dt g) = segments g" "position (scoreTick dt g) = position g"
  "playerX (scoreTick dt g) = playerX g" "speed (scoreTick dt g) = speed g"
  "isGameOver (scoreTick dt g) = isGameOver g" "carStore (scoreTick dt g) = carStore g"
  "highScore (scoreTick dt g) = highScore g"
  by (simp_all add: scoreTick_def)

lemma triggerCloseCall_frame [simp]:
  "segments (triggerCloseCall g) = segments g" "carStore (triggerCloseCall g) = carStore g"
  "playerX (triggerCloseCall g) = playerX g" "position (triggerCloseCall g) = position g"
  "isGameOver (triggerCloseCall g) = isGameOver g" "speed (triggerCloseCall g) = speed g"
  "highScore (triggerCloseCall g) = highScore g"
  by (simp_all add: triggerCloseCall_def)

lemma carStep_frame [simp]:
  "segments (fst (carStep dt pz tlen n i a st)) = segments (fst st)"
  "playerX (fst (carStep dt pz tlen n i a st)) = playerX (fst st)"
  "position (fst (carStep dt pz tlen n i a st)) = position (fst st)"
  by (simp_all add: carStep_def Let_def)

lemma carStep_store_other:
  "b \<noteq> a \<Longrightarrow> carStore (fst (carStep dt pz tlen n i a st)) b = carStore (fst st) b"
  by (simp add: carStep_def Let_def)

lemma carStep_store_same:
  "z (carStore (fst (carStep dt pz tlen n i a st)) a) = advanceZ dt tlen (carStore (fst st) a)"
  "car.speed (carStore (fst (carStep dt pz tlen n i a st)) a) = car.speed (carStore (fst st) a)"
  "car.offset (carStore (fst (carStep dt pz tlen n i a st)) a) = car.offset (carStore (fst st) a)"
  by (simp_all add: carStep_def Let_def)

lemma carStep_moves:
  "snd (carStep dt pz tlen n i a st) = snd st @ movesOf dt tlen n (carStore (fst st)) [(i, a)]"
  by (simp add: carStep_def Let_def movesOf_def actualIndex_def)

lemma fold_concat_lists: "fold f (concat xss) = fold (fold f) xss"
  by (induction xss) simp_all

lemma trafficLoop_pairs:
  "trafficLoop dt pz tlen g =
     fold (\<lambda>p. carStep dt pz tlen (length (segments g)) (fst p) (snd p)) (carPairs (segments g)) (g, [])"
  by (simp add: trafficLoop_def carPairs_def fold_concat_lists fold_map comp_def)

subsection \<open>The first loop of the traffic update\<close>

lemma movesOf_cong:
  assumes "\<And>p. p \<in> set ps \<Longrightarrow> s1 (snd p) = s2 (snd p)"
  shows "movesOf dt tlen n s1 ps = movesOf dt tlen n s2 ps"
proof -
  have f: "filter (\<lambda>p. int (fst p) \<noteq> actualIndex dt tlen n (s1 (snd p))) ps
         = filter (\<lambda>p. int (fst p) \<noteq> actualIndex dt tlen n (s2 (snd p))) ps"
    by (rule filter_cong) (simp_all add: assms)
  show ?thesis
    unfolding movesOf_def f
    by (rule map_cong) (simp_all add: assms)
qed

lemma movesOf_Cons:
  "movesOf dt tlen n s (p # ps) = movesOf dt tlen n s [(fst p, snd p)] @ movesOf dt tlen n s ps"
  by (simp add: movesOf_def)

lemma carLoop_frame:
  "segments (fst (carLoop dt pz tlen n ps st)) = segments (fst st)"
  "playerX (fst (carLoop dt pz tlen n ps st)) = playerX (fst st)"
  "position (fst (carLoop dt pz tlen n ps st)) = position (fst st)"
  by (induction ps arbitrary: st; simp)+

lemma carLoop_store_other:
  "b \<notin> snd ` set ps \<Longrightarrow> carStore (fst (carLoop dt pz tlen n ps st)) b = carStore (fst st) b"
  by (induction ps arbitrary: st) (simp_all add: carStep_store_other)

lemma carLoop_store_same:
  assumes "distinct (map snd ps)" and "b \<in> snd ` set ps"
  shows "z (carStore (fst (carLoop dt pz tlen n ps st)) b) = advanceZ dt tlen (carStore (fst st) b)
       \<and> car.speed (carStore (fst (carLoop dt pz tlen n ps st)) b) = car.speed (carStore (fst st) b)
       \<and> car.offset (carStore (fst (carLoop dt pz tlen n ps st)) b) = car.offset (carStore (fst st) b)"
  using assms
proof (induction ps arbitrary: st)
  case Nil
  then show ?case by simp
next
  case (Cons p ps)
  show ?case
  proof (cases "b = snd p")
    case True
    then have "b \<notin> snd ` set ps" using Cons.prems(1) by auto
    then show ?thesis
      using True by (simp add: carLoop_store_other carStep_store_same)
  next
    case False
    then have "b \<in> snd ` set ps" using Cons.prems(2) by auto
    moreover have "distinct (map snd ps)" using Cons.prems(1) by simp
    ultimately show ?thesis
      using Cons.IH [of "carStep dt pz tlen n (fst p) (snd p) st"] False
      by (simp add: carStep_store_other)
  qed
qed

lemma carLoop_moves:
  assumes "distinct (map snd ps)"
  shows "snd (carLoop dt pz tlen n ps st) = snd st @ movesOf dt tlen n (carStore (fst st)) ps"
  using assms
proof (induction ps arbitrary: st)
  case Nil
  show ?case by (simp add: movesOf_def)
next
  case (Cons p ps)
  let ?st1 = "carStep dt pz tlen n (fst p) (snd p) st"
  have d: "distinct (map snd ps)" and notin: "snd p \<notin> snd ` set ps"
    using Cons.prems by auto
  have same: "\<And>q. q \<in> set ps \<Longrightarrow> carStore (fst ?st1) (snd q) = carStore (fst st) (snd q)"
  proof -
    fix q assume "q \<in> set ps"
    then have "snd q \<noteq> snd p" using notin by (metis imageI)
    then show "carStore (fst ?st1) (snd q) = carStore (fst st) (snd q)"
      by (rule carStep_store_other)
  qed
  have mv: "movesOf dt tlen n (carStore (fst ?st1)) ps = movesOf dt tlen n (carStore (fst st)) ps"
    by (rule movesOf_cong) (rule same)
  have "snd (carLoop dt pz tlen n (p # ps) st) = snd ?st1 @ movesOf dt tlen n (carStore (fst ?st1)) ps"
    using Cons.IH [OF d, of ?st1] by simp
  also have "\<dots> = snd st @ movesOf dt tlen n (carStore (fst st)) (p # ps)"
    unfolding mv carStep_moves movesOf_Cons [of dt tlen n "carStore (fst st)" p ps] by simp
  finally show ?case .
qed

subsection \<open>Migration between segments\<close>

lemma carSet_nth: "carSet segs = (\<Union>j<length segs. set (cars (segs ! j)))"
proof -
  have "set segs = (\<lambda>j. segs ! j) ` {..<length segs}"
    by (auto simp: set_conv_nth)
  then have "carSet segs = (\<Union>s \<in> (\<lambda>j. segs ! j) ` {..<length segs}. set (cars s))"
    unfolding carSet_def by simp
  then show ?thesis by simp
qed

lemma moved_cars:
  fixes a :: nat
  assumes "i < length segs" "k < length segs" "i \<noteq> k" "j < length segs"
  defines "segs1 \<equiv> segs[i := (segs ! i)\<lparr>cars := remove1 a (cars (segs ! i))\<rparr>]"
  defines "segs2 \<equiv> segs1[k := (segs1 ! k)\<lparr>cars := cars (segs1 ! k) @ [a]\<rparr>]"
  shows "cars (segs2 ! j) = (if j = k then cars (segs ! k) @ [a]
                             else if j = i then remove1 a (cars (segs ! i)) else cars (segs ! j))"
  using assms(1-4) unfolding segs1_def segs2_def
  by (simp add: nth_list_update)

lemma movesInv_step:
  assumes inv: "movesInv act segs ((a, i, t) # ms)"
  defines "segs1 \<equiv> segs[i := (segs ! i)\<lparr>cars := remove1 a (cars (segs ! i))\<rparr>]"
  defines "segs2 \<equiv> segs1[nat t := (segs1 ! nat t)\<lparr>cars := cars (segs1 ! nat t) @ [a]\<rparr>]"
  shows "movesInv act segs2 ms" and "length segs2 = length segs" and "carSet segs2 = carSet segs"
    and "lookup segs1 t = Some (segs1 ! nat t)" and "a \<in> set (cars (segs ! i))"
proof -
  let ?n = "length segs"
  let ?k = "nat t"
  have i: "i < ?n" and t0: "0 \<le> t" and tn: "t < int ?n" and ta: "t = act a" and it: "int i \<noteq> t"
    and ai: "a \<in> set (cars (segs ! i))"
    using inv unfolding movesInv_def by auto
  have k: "?k < ?n" and ik: "i \<noteq> ?k" using t0 tn it by auto
  have dist: "\<And>j. j < ?n \<Longrightarrow> distinct (cars (segs ! j))"
    and disj: "\<And>j l. j < ?n \<Longrightarrow> l < ?n \<Longrightarrow> j \<noteq> l \<Longrightarrow> set (cars (segs ! j)) \<inter> set (cars (segs ! l)) = {}"
    using inv unfolding movesInv_def by auto
  have rest: "\<And>m. m \<in> set ms \<Longrightarrow> fst (snd m) < ?n \<and> 0 \<le> snd (snd m) \<and> snd (snd m) < int ?n \<and>
         snd (snd m) = act (fst m) \<and> int (fst (snd m)) \<noteq> snd (snd m) \<and>
         fst m \<in> set (cars (segs ! fst (snd m)))"
    using inv unfolding movesInv_def by auto
  have anot: "a \<notin> fst ` set ms" and dms: "distinct (map fst ms)"
    using inv unfolding movesInv_def by auto
  have own: "\<And>j b. j < ?n \<Longrightarrow> b \<in> set (cars (segs ! j)) \<Longrightarrow>
               int j = act b \<or> (b, j, act b) \<in> set ((a, i, t) # ms)"
    using inv unfolding movesInv_def by blast
  have len: "length segs2 = ?n" by (simp add: segs1_def segs2_def)
  have C: "\<And>j. j < ?n \<Longrightarrow> cars (segs2 ! j) = (if j = ?k then cars (segs ! ?k) @ [a]
                             else if j = i then remove1 a (cars (segs ! i)) else cars (segs ! j))"
    unfolding segs1_def segs2_def using moved_cars [OF i k ik] by simp
  have ak: "a \<notin> set (cars (segs ! ?k))"
    using disj [OF i k ik] ai by auto
  have S: "\<And>j. j < ?n \<Longrightarrow> set (cars (segs2 ! j)) = (if j = ?k then insert a (set (cars (segs ! ?k)))
                             else if j = i then set (cars (segs ! i)) - {a} else set (cars (segs ! j)))"
    using dist [OF i] by (simp add: C)
  have only_i: "\<And>j. j < ?n \<Longrightarrow> a \<in> set (cars (segs ! j)) \<Longrightarrow> j = i"
    using disj i ai by blast
  have p1: "\<forall>j<length segs2. distinct (cars (segs2 ! j))"
    unfolding len using dist ak by (auto simp: C)
  have p2: "\<forall>j<length segs2. \<forall>l<length segs2. j \<noteq> l \<longrightarrow> set (cars (segs2 ! j)) \<inter> set (cars (segs2 ! l)) = {}"
  proof (intro allI impI)
    fix j l assume j: "j < length segs2" and l: "l < length segs2" and jl: "j \<noteq> l"
    have jn: "j < ?n" and ln: "l < ?n" using j l len by auto
    have d0: "set (cars (segs ! j)) \<inter> set (cars (segs ! l)) = {}" by (rule disj [OF jn ln jl])
    have aj: "j \<noteq> i \<Longrightarrow> a \<notin> set (cars (segs ! j))" using only_i [OF jn] by blast
    have al: "l \<noteq> i \<Longrightarrow> a \<notin> set (cars (segs ! l))" using only_i [OF ln] by blast
    show "set (cars (segs2 ! j)) \<inter> set (cars (segs2 ! l)) = {}"
      unfolding S [OF jn] S [OF ln] using d0 aj al jl by auto
  qed
  have p3: "\<forall>m \<in> set ms. fst (snd m) < length segs2 \<and> 0 \<le> snd (snd m) \<and> snd (snd m) < int (length segs2) \<and>
         snd (snd m) = act (fst m) \<and> int (fst (snd m)) \<noteq> snd (snd m) \<and>
         fst m \<in> set (cars (segs2 ! fst (snd m)))"
  proof
    fix m assume m: "m \<in> set ms"
    note r = rest [OF m]
    have ne: "fst m \<noteq> a" using anot m by auto
    have "fst m \<in> set (cars (segs2 ! fst (snd m)))"
      using r ne ik by (auto simp: S)
    then show "fst (snd m) < length segs2 \<and> 0 \<le> snd (snd m) \<and> snd (snd m) < int (length segs2) \<and>
         snd (snd m) = act (fst m) \<and> int (fst (snd m)) \<noteq> snd (snd m) \<and>
         fst m \<in> set (cars (segs2 ! fst (snd m)))"
      using r len by simp
  qed
  have p5: "\<forall>j<length segs2. \<forall>b \<in> set (cars (segs2 ! j)). int j = act b \<or> (b, j, act b) \<in> set ms"
  proof (intro allI impI ballI)
    fix j b assume j: "j < length segs2" and b: "b \<in> set (cars (segs2 ! j))"
    have jn: "j < ?n" using j len by simp
    show "int j = act b \<or> (b, j, act b) \<in> set ms"
    proof (cases "b = a")
      case True
      then have "j = ?k" using b S [OF jn] ak only_i [OF jn] by (auto split: if_splits)
      then show ?thesis using True ta t0 by simp
    next
      case False
      then have "b \<in> set (cars (segs ! j))" using b S [OF jn] by (auto split: if_splits)
      then show ?thesis using own [OF jn] False by auto
    qed
  qed
  show "movesInv act segs2 ms"
    unfolding movesInv_def using p1 p2 p3 dms p5 by blast
  show "length segs2 = length segs" by (rule len)
  show "carSet segs2 = carSet segs"
  proof -
    have "(\<Union>j<?n. set (cars (segs2 ! j))) = (\<Union>j<?n. set (cars (segs ! j)))"
    proof (intro set_eqI iffI)
      fix b assume "b \<in> (\<Union>j<?n. set (cars (segs2 ! j)))"
      then obtain j where jn: "j < ?n" and b: "b \<in> set (cars (segs2 ! j))" by auto
      show "b \<in> (\<Union>j<?n. set (cars (segs ! j)))"
      proof (cases "b = a")
        case True then show ?thesis using ai i by auto
      next
        case False
        then have "b \<in> set (cars (segs ! j))" using b S [OF jn] by (auto split: if_splits)
        then show ?thesis using jn by auto
      qed
    next
      fix b assume "b \<in> (\<Union>j<?n. set (cars (segs ! j)))"
      then obtain j where jn: "j < ?n" and b: "b \<in> set (cars (segs ! j))" by auto
      show "b \<in> (\<Union>j<?n. set (cars (segs2 ! j)))"
      proof (cases "b = a")
        case True
        have "a \<in> set (cars (segs2 ! ?k))" using S [OF k] by simp
        then show ?thesis using True k by auto
      next
        case False
        then have "b \<in> set (cars (segs2 ! j))" using b S [OF jn] by auto
        then show ?thesis using jn by auto
      qed
    qed
    then show ?thesis unfolding carSet_nth len .
  qed
  show "lookup segs1 t = Some (segs1 ! nat t)"
    using t0 tn by (simp add: lookup_def segs1_def)
  show "a \<in> set (cars (segs ! i))" by (rule ai)
qed

lemma applyMoves_inv:
  "movesInv act segs ms \<Longrightarrow>
     \<exists>segs'. applyMoves ms segs = Inr segs' \<and> length segs' = length segs \<and>
        movesInv act segs' [] \<and> carSet segs' = carSet segs"
proof (induction ms arbitrary: segs)
  case Nil
  then show ?case by simp
next
  case (Cons m ms)
  obtain a i t where m: "m = (a, i, t)" by (cases m) auto
  define segs1 where "segs1 = segs[i := (segs ! i)\<lparr>cars := remove1 a (cars (segs ! i))\<rparr>]"
  define segs2 where "segs2 = segs1[nat t := (segs1 ! nat t)\<lparr>cars := cars (segs1 ! nat t) @ [a]\<rparr>]"
  note st = movesInv_step [OF Cons.prems [unfolded m], folded segs1_def, folded segs2_def]
  from Cons.IH [OF st(1)] obtain segs' where
    r: "applyMoves ms segs2 = Inr segs'" "length segs' = length segs2"
       "movesInv act segs' []" "carSet segs' = carSet segs2" by blast
  have "applyMoves (m # ms) segs = applyMoves ms segs2"
    unfolding m using st(4,5) by (simp add: segs1_def [symmetric] segs2_def [symmetric] Let_def)
  then show ?case using r st(2,3) by simp
qed

subsection \<open>The traffic update keeps every car in one segment\<close>

lemma js_rem_range: "0 \<le> a \<Longrightarrow> 0 < n \<Longrightarrow> 0 \<le> js_rem a n \<and> js_rem a n < n"
  by (simp add: js_rem_def)

lemma advanceZ_nonneg:
  assumes "0 \<le> z c" "0 \<le> car.speed c" "0 \<le> dt"
  shows "0 \<le> advanceZ dt tlen c"
proof -
  have "0 \<le> car.speed c * dt" using assms by simp
  then show ?thesis using assms(1) by (simp add: advanceZ_def Let_def)
qed

lemma advanceZ_range:
  assumes "0 \<le> z c" "z c \<le> tlen" "0 \<le> car.speed c * dt" "car.speed c * dt \<le> tlen"
  shows "0 \<le> advanceZ dt tlen c \<and> advanceZ dt tlen c \<le> tlen"
  using assms by (simp add: advanceZ_def Let_def)

lemma actualIndex_range:
  assumes "0 \<le> z c" "0 \<le> car.speed c" "0 \<le> dt" "0 < n"
  shows "0 \<le> actualIndex dt tlen n c \<and> actualIndex dt tlen n c < int n"
proof -
  have "0 \<le> advanceZ dt tlen c / SEGMENT_LENGTH"
    using advanceZ_nonneg [OF assms(1-3), of tlen] by (simp add: SEGMENT_LENGTH_def)
  then have "0 \<le> \<lfloor>advanceZ dt tlen c / SEGMENT_LENGTH\<rfloor>" by simp
  then show ?thesis
    unfolding actualIndex_def using js_rem_range [of _ "int n"] assms(4) by simp
qed

lemma distinct_concat_upt:
  assumes "\<And>i. i < n \<Longrightarrow> distinct (f i)"
      and "\<And>i j. i < n \<Longrightarrow> j < n \<Longrightarrow> i \<noteq> j \<Longrightarrow> set (f i) \<inter> set (f j) = {}"
  shows "distinct (concat (map f [0 ..< n]))"
  using assms
proof (induction n)
  case 0
  show ?case by simp
next
  case (Suc n)
  have "distinct (concat (map f [0 ..< n]))"
    by (rule Suc.IH) (simp_all add: Suc.prems)
  moreover have "distinct (f n)" by (simp add: Suc.prems)
  moreover have "\<And>i x. i < n \<Longrightarrow> x \<in> set (f i) \<Longrightarrow> x \<notin> set (f n)"
  proof -
    fix i x assume i: "i < n" and x: "x \<in> set (f i)"
    have "set (f i) \<inter> set (f n) = {}"
      by (rule Suc.prems(2)) (use i in simp_all)
    then show "x \<notin> set (f n)" using x by blast
  qed
  ultimately show ?case by auto
qed

lemma snd_carPairs: "map snd (carPairs segs) = concat (map (\<lambda>i. cars (segs ! i)) [0 ..< length segs])"
  by (simp add: carPairs_def map_concat comp_def)

lemma set_carPairs: "set (carPairs segs) = {(i, a). i < length segs \<and> a \<in> set (cars (segs ! i))}"
  by (auto simp: carPairs_def)

lemma snd_set_carPairs: "snd ` set (carPairs segs) = carSet segs"
  unfolding carSet_nth set_carPairs by force

lemma distinct_carPairs: "singleOwner segs \<Longrightarrow> distinct (map snd (carPairs segs))"
  unfolding snd_carPairs singleOwner_def
  by (rule distinct_concat_upt) simp_all

lemma set_movesOf:
  "set (movesOf dt tlen n s ps) =
     {(a, i, actualIndex dt tlen n (s a)) | a i. (i, a) \<in> set ps \<and> int i \<noteq> actualIndex dt tlen n (s a)}"
  unfolding movesOf_def by force

lemma fst_movesOf:
  "map fst (movesOf dt tlen n s ps) =
     map snd (filter (\<lambda>p. int (fst p) \<noteq> actualIndex dt tlen n (s (snd p))) ps)"
  by (simp add: movesOf_def comp_def)

lemma movesInv_movesOf:
  assumes so: "singleOwner segs" and n: "0 < length segs" and dt: "0 \<le> dt"
      and ok: "\<And>a. a \<in> carSet segs \<Longrightarrow> 0 \<le> z (s a) \<and> 0 \<le> car.speed (s a)"
  shows "movesInv (\<lambda>a. actualIndex dt tlen (length segs) (s a)) segs
           (movesOf dt tlen (length segs) s (carPairs segs))"
proof -
  let ?act = "\<lambda>a. actualIndex dt tlen (length segs) (s a)"
  let ?ms = "movesOf dt tlen (length segs) s (carPairs segs)"
  have p3: "\<forall>m \<in> set ?ms. fst (snd m) < length segs \<and> 0 \<le> snd (snd m) \<and> snd (snd m) < int (length segs) \<and>
         snd (snd m) = ?act (fst m) \<and> int (fst (snd m)) \<noteq> snd (snd m) \<and>
         fst m \<in> set (cars (segs ! fst (snd m)))"
  proof
    fix m assume "m \<in> set ?ms"
    then obtain a i where m: "m = (a, i, ?act a)" and ia: "(i, a) \<in> set (carPairs segs)"
      and ne: "int i \<noteq> ?act a"
      unfolding set_movesOf by blast
    have i: "i < length segs" and a: "a \<in> set (cars (segs ! i))"
      using ia unfolding set_carPairs by auto
    have "a \<in> carSet segs" unfolding carSet_nth using i a by auto
    then have "0 \<le> ?act a \<and> ?act a < int (length segs)"
      using actualIndex_range [OF _ _ dt n] ok by blast
    then show "fst (snd m) < length segs \<and> 0 \<le> snd (snd m) \<and> snd (snd m) < int (length segs) \<and>
         snd (snd m) = ?act (fst m) \<and> int (fst (snd m)) \<noteq> snd (snd m) \<and>
         fst m \<in> set (cars (segs ! fst (snd m)))"
      using m i a ne by simp
  qed
  have p4: "distinct (map fst ?ms)"
    unfolding fst_movesOf by (rule distinct_map_filter) (rule distinct_carPairs [OF so])
  have p5: "\<forall>i<length segs. \<forall>a \<in> set (cars (segs ! i)). int i = ?act a \<or> (a, i, ?act a) \<in> set ?ms"
    unfolding set_movesOf set_carPairs by blast
  show ?thesis
    unfolding movesInv_def using so [unfolded singleOwner_def] p3 p4 p5 by blast
qed

lemma updateTraffic_ok:
  assumes dt: "0 \<le> dt" and ok: "carsOK g" and so: "singleOwner (segments g)"
  shows "\<exists>g'. updateTraffic dt g = Inr g' \<and> length (segments g') = length (segments g) \<and>
           carSet (segments g') = carSet (segments g) \<and> singleOwner (segments g') \<and> ownerIndex g' \<and>
           position g' = position g \<and> playerX g' = playerX g \<and>
           (\<forall>a \<in> carSet (segments g).
              z (carStore g' a) = advanceZ dt (real (length (segments g)) * SEGMENT_LENGTH) (carStore g a) \<and>
              car.speed (carStore g' a) = car.speed (carStore g a) \<and>
              car.offset (carStore g' a) = car.offset (carStore g a))"
proof -
  let ?segs = "segments g"
  let ?n = "length ?segs"
  let ?pz = "position g + CAMERA_HEIGHT"
  let ?tl = "real ?n * SEGMENT_LENGTH"
  let ?ps = "carPairs ?segs"
  let ?st = "trafficLoop dt ?pz ?tl g"
  let ?g1 = "fst ?st"
  let ?act = "\<lambda>a. actualIndex dt ?tl ?n (carStore g a)"
  have st: "?st = carLoop dt ?pz ?tl ?n ?ps (g, [])" by (rule trafficLoop_pairs)
  have d: "distinct (map snd ?ps)" by (rule distinct_carPairs [OF so])
  have seg1: "segments ?g1 = ?segs" and px1: "playerX ?g1 = playerX g" and pos1: "position ?g1 = position g"
    unfolding st by (simp_all add: carLoop_frame)
  have mv: "snd ?st = movesOf dt ?tl ?n (carStore g) ?ps"
    unfolding st using carLoop_moves [OF d, of dt ?pz ?tl ?n "(g, [])"] by simp
  have cars1: "\<And>a. a \<in> carSet ?segs \<Longrightarrow>
      z (carStore ?g1 a) = advanceZ dt ?tl (carStore g a) \<and>
      car.speed (carStore ?g1 a) = car.speed (carStore g a) \<and>
      car.offset (carStore ?g1 a) = car.offset (carStore g a)"
    unfolding st using carLoop_store_same [OF d, of _ dt ?pz ?tl ?n "(g, [])"]
    by (simp add: snd_set_carPairs)
  have n: "0 < ?n" and okc: "\<And>a. a \<in> carSet ?segs \<Longrightarrow> 0 \<le> z (carStore g a) \<and> 0 \<le> car.speed (carStore g a)"
    using ok unfolding carsOK_def by auto
  have "movesInv ?act ?segs (snd ?st)"
    unfolding mv by (rule movesInv_movesOf [OF so n dt okc])
  from applyMoves_inv [OF this] obtain segs' where
    r: "applyMoves (snd ?st) ?segs = Inr segs'" "length segs' = ?n"
       "movesInv ?act segs' []" "carSet segs' = carSet ?segs" by blast
  define g2 where "g2 = ?g1\<lparr>segments := segs'\<rparr>"
  define g' where "g' = scoreTick dt g2"
  have up: "updateTraffic dt g = Inr g'"
    unfolding updateTraffic_def Let_def seg1 r(1) g'_def g2_def by simp
  have f: "segments g' = segs'" "carStore g' = carStore ?g1" "position g' = position g"
     "playerX g' = playerX g"
    unfolding g'_def g2_def by (simp_all add: px1 pos1)
  have so': "singleOwner segs'"
    using r(3) unfolding movesInv_def singleOwner_def by blast
  have oi: "ownerIndex g'"
    unfolding ownerIndex_def f r(2)
  proof (intro allI impI ballI)
    fix i a assume i: "i < ?n" and a: "a \<in> set (cars (segs' ! i))"
    have "a \<in> carSet segs'" unfolding carSet_nth r(2) using i a by auto
    then have ac: "a \<in> carSet ?segs" using r(4) by simp
    have "int i = ?act a" using r(3) i a unfolding movesInv_def r(2) by simp
    then show "int i = js_rem \<lfloor>z (carStore ?g1 a) / SEGMENT_LENGTH\<rfloor> (int ?n)"
      using cars1 [OF ac] by (simp add: actualIndex_def)
  qed
  show ?thesis
    apply (rule exI [of _ g'])
    using up f r(2,4) so' oi cars1 by simp
qed

subsection \<open>Sprite collisions and the player\<close>

lemma js_rem_lower:
  assumes "0 < n"
  shows "- n < js_rem a n"
proof (cases "0 \<le> a")
  case True
  have "0 \<le> a mod n" using assms by simp
  then have "- n < a mod n" using assms by linarith
  then show ?thesis using True by (simp add: js_rem_def)
next
  case False
  have "(- a) mod n < n" using assms by simp
  then have "- n < - ((- a) mod n)" by linarith
  then show ?thesis using False by (simp add: js_rem_def)
qed

lemma lookup_Some: "0 \<le> i \<Longrightarrow> i < int (length xs) \<Longrightarrow> lookup xs i = Some (xs ! nat i)"
  by (simp add: lookup_def)

lemma spriteScan_cases:
  assumes "0 < length (segments g)"
      and "\<forall>i \<in> set is. 0 \<le> start + i + int (length (segments g))"
  shows "spriteScan is start pz tlen g = Inr g \<or> spriteScan is start pz tlen g = Inr (crash g)"
  using assms(2)
proof (induction "is")
  case Nil
  show ?case by simp
next
  case (Cons i "is")
  let ?n = "int (length (segments g))"
  have "0 \<le> start + i + ?n" using Cons.prems by simp
  then have r: "0 \<le> js_rem (start + i + ?n) ?n \<and> js_rem (start + i + ?n) ?n < ?n"
    using js_rem_range [of "start + i + ?n" ?n] assms(1) by simp
  have l: "lookup (segments g) (js_rem (start + i + ?n) ?n)
             = Some (segments g ! nat (js_rem (start + i + ?n) ?n))"
    using r by (simp add: lookup_Some)
  have "spriteScan is start pz tlen g = Inr g \<or> spriteScan is start pz tlen g = Inr (crash g)"
    using Cons by simp
  then show ?case
    by (auto simp: l Let_def)
qed

lemma checkSpriteCollisions_cases:
  assumes "0 < length (segments g)"
  shows "checkSpriteCollisions g = Inr g \<or> checkSpriteCollisions g = Inr (crash g)"
proof -
  let ?n = "int (length (segments g))"
  let ?start = "js_rem \<lfloor>(position g + CAMERA_HEIGHT) / SEGMENT_LENGTH\<rfloor> ?n"
  have "- ?n < ?start" using js_rem_lower [of ?n] assms by simp
  then have "\<forall>i \<in> set [-1, 0, 1, 2]. 0 \<le> ?start + i + ?n" by simp
  from spriteScan_cases [OF assms this] show ?thesis
    unfolding checkSpriteCollisions_def Let_def by blast
qed

lemma throttle_range: "0 \<le> throttle dt cmd v \<and> throttle dt cmd v \<le> MAX_SPEED"
  by (simp add: throttle_def Let_def MAX_SPEED_def)

lemma updatePlayer_frame [simp]:
  "segments (updatePlayer dt cmd ps g) = segments g"
  "carStore (updatePlayer dt cmd ps g) = carStore g"
  "isGameOver (updatePlayer dt cmd ps g) = isGameOver g"
  "score (updatePlayer dt cmd ps g) = score g"
  "highScore (updatePlayer dt cmd ps g) = highScore g"
  by (simp_all add: updatePlayer_def Let_def)

lemma updatePlayer_speed_cases:
  "speed (updatePlayer dt cmd ps g) = throttle dt cmd (speed g) \<or>
   (2000 < throttle dt cmd (speed g) \<and>
    speed (updatePlayer dt cmd ps g) = throttle dt cmd (speed g) + OFF_ROAD_DECEL * dt * 60)"
  by (simp add: updatePlayer_def Let_def)

lemma updatePlayer_speed_upper:
  assumes "0 \<le> dt"
  shows "speed (updatePlayer dt cmd ps g) \<le> MAX_SPEED"
proof -
  have "OFF_ROAD_DECEL * dt * 60 \<le> 0" using assms by (simp add: OFF_ROAD_DECEL_def)
  then show ?thesis
    using updatePlayer_speed_cases [of dt cmd ps g] throttle_range [of dt cmd "speed g"] by linarith
qed

lemma updatePlayer_speed_lower:
  assumes "0 \<le> dt" "dt \<le> 1"
  shows "- 10000 \<le> speed (updatePlayer dt cmd ps g)"
proof -
  have "- 12000 \<le> OFF_ROAD_DECEL * dt * 60" using assms by (simp add: OFF_ROAD_DECEL_def)
  then show ?thesis
    using updatePlayer_speed_cases [of dt cmd ps g] throttle_range [of dt cmd "speed g"] by linarith
qed

lemma updatePlayer_speed_short_tick:
  assumes "0 \<le> dt" "dt \<le> 1 / 6"
  shows "0 \<le> speed (updatePlayer dt cmd ps g) \<and> speed (updatePlayer dt cmd ps g) \<le> MAX_SPEED"
proof -
  have "- 2000 \<le> OFF_ROAD_DECEL * dt * 60" using assms by (simp add: OFF_ROAD_DECEL_def)
  then have "0 \<le> speed (updatePlayer dt cmd ps g)"
    using updatePlayer_speed_cases [of dt cmd ps g] throttle_range [of dt cmd "speed g"] by linarith
  then show ?thesis using updatePlayer_speed_upper [OF assms(1)] by simp
qed

lemma updatePlayer_position:
  "position (updatePlayer dt cmd ps g) =
     (let p1 = position g + speed (updatePlayer dt cmd ps g) * dt;
          tl = real (length (segments g)) * SEGMENT_LENGTH;
          p2 = (if p1 \<ge> tl then p1 - tl else p1)
      in if p2 < 0 then p2 + tl else p2)"
  by (simp add: updatePlayer_def Let_def)

lemma updatePlayer_position_range:
  assumes dt: "0 \<le> dt" "dt \<le> 1"
      and n: "length (segments g) = TOTAL_SEGMENTS"
      and p: "0 \<le> position g" "position g < real TOTAL_SEGMENTS * SEGMENT_LENGTH"
  shows "0 \<le> position (updatePlayer dt cmd ps g) \<and>
         position (updatePlayer dt cmd ps g) < real TOTAL_SEGMENTS * SEGMENT_LENGTH"
proof -
  let ?v = "speed (updatePlayer dt cmd ps g)"
  have v: "- 10000 \<le> ?v" "?v \<le> 12000"
    using updatePlayer_speed_lower [OF dt] updatePlayer_speed_upper [OF dt(1)]
    by (simp_all add: MAX_SPEED_def)
  have lo: "- 10000 \<le> ?v * dt"
  proof (cases "0 \<le> ?v")
    case True
    then have "0 \<le> ?v * dt" using dt by simp
    then show ?thesis by simp
  next
    case False
    then have "?v * dt \<ge> ?v * 1" using dt by (intro mult_left_mono_neg) simp_all
    then show ?thesis using v by simp
  qed
  have hi: "?v * dt \<le> 12000"
  proof (cases "0 \<le> ?v")
    case True
    then have "?v * dt \<le> ?v * 1" using dt by (intro mult_left_mono) simp_all
    then show ?thesis using v by simp
  next
    case False
    then have "?v * dt \<le> 0" using dt by (simp add: mult_le_0_iff)
    then show ?thesis by simp
  qed
  show ?thesis
    unfolding updatePlayer_position Let_def n
    using lo hi p by (simp add: TOTAL_SEGMENTS_def SEGMENT_LENGTH_def)
qed

subsection \<open>The invariant of the running game\<close>

lemma findSegment_Some:
  assumes "0 \<le> zz" "0 < length segs"
  shows "\<exists>s. findSegment segs zz = Some s \<and> s \<in> set segs"
proof -
  let ?n = "int (length segs)"
  have "0 \<le> zz / SEGMENT_LENGTH" using assms(1) by (simp add: SEGMENT_LENGTH_def)
  then have "0 \<le> \<lfloor>zz / SEGMENT_LENGTH\<rfloor>" by simp
  then have r: "0 \<le> js_rem \<lfloor>zz / SEGMENT_LENGTH\<rfloor> ?n \<and> js_rem \<lfloor>zz / SEGMENT_LENGTH\<rfloor> ?n < ?n"
    using js_rem_range [of _ ?n] assms(2) by simp
  then have "findSegment segs zz = Some (segs ! nat (js_rem \<lfloor>zz / SEGMENT_LENGTH\<rfloor> ?n))"
    unfolding findSegment_def by (simp add: lookup_Some)
  moreover have "segs ! nat (js_rem \<lfloor>zz / SEGMENT_LENGTH\<rfloor> ?n) \<in> set segs"
    using r by (intro nth_mem) linarith
  ultimately show ?thesis by blast
qed

lemma roadInv_cong:
  "segments g' = segments g \<Longrightarrow> carStore g' = carStore g \<Longrightarrow> position g' = position g \<Longrightarrow>
   roadInv g' = roadInv g"
  by (simp add: roadInv_def carsOK_def ownerIndex_def)

lemma update_inv:
  assumes dt: "0 \<le> dt" "dt \<le> 1" and inv: "roadInv g"
  shows "\<exists>g'. update dt cmd g = Inr g' \<and> roadInv g' \<and> carSet (segments g') = carSet (segments g)"
proof (cases "isGameOver g")
  case True
  then show ?thesis using inv by (simp add: update_def)
next
  case False
  have n: "length (segments g) = TOTAL_SEGMENTS" and pos: "0 \<le> position g"
    "position g < real TOTAL_SEGMENTS * SEGMENT_LENGTH"
    and ok: "carsOK g" and so: "singleOwner (segments g)"
    using inv unfolding roadInv_def by auto
  have n0: "0 < length (segments g)" using n by (simp add: TOTAL_SEGMENTS_def)
  have "0 \<le> position g + CAMERA_DEPTH * SEGMENT_LENGTH"
    using pos by (simp add: CAMERA_DEPTH_def SEGMENT_LENGTH_def)
  from findSegment_Some [OF this n0] obtain ps where
    ps: "findSegment (segments g) (position g + CAMERA_DEPTH * SEGMENT_LENGTH) = Some ps" by blast
  define g1 where "g1 = updatePlayer dt cmd ps g"
  have seg1: "segments g1 = segments g" and st1: "carStore g1 = carStore g"
    unfolding g1_def by simp_all
  have pos1: "0 \<le> position g1 \<and> position g1 < real TOTAL_SEGMENTS * SEGMENT_LENGTH"
    unfolding g1_def by (rule updatePlayer_position_range [OF dt n pos])
  have ok1: "carsOK g1" using ok unfolding carsOK_def seg1 st1 .
  have so1: "singleOwner (segments g1)" using so unfolding seg1 .
  from updateTraffic_ok [OF dt(1) ok1 so1] obtain g2 where
    g2: "updateTraffic dt g1 = Inr g2" "length (segments g2) = length (segments g1)"
      "carSet (segments g2) = carSet (segments g1)" "singleOwner (segments g2)" "ownerIndex g2"
      "position g2 = position g1"
      and cars2: "\<forall>a \<in> carSet (segments g1).
              z (carStore g2 a) = advanceZ dt (real (length (segments g1)) * SEGMENT_LENGTH) (carStore g1 a) \<and>
              car.speed (carStore g2 a) = car.speed (carStore g1 a) \<and>
              car.offset (carStore g2 a) = car.offset (carStore g1 a)"
    by blast
  have n2: "0 < length (segments g2)" using g2(2) seg1 n0 by simp
  have ok2: "carsOK g2"
    unfolding carsOK_def g2(3)
  proof (intro conjI ballI)
    show "0 < length (segments g2)" by (rule n2)
  next
    fix a assume a: "a \<in> carSet (segments g1)"
    then have c: "0 \<le> z (carStore g1 a)" "0 \<le> car.speed (carStore g1 a)"
      using ok1 unfolding carsOK_def by auto
    show "0 \<le> z (carStore g2 a)"
      using cars2 a advanceZ_nonneg [OF c dt(1)] by simp
    show "0 \<le> car.speed (carStore g2 a)"
      using cars2 a c by simp
  qed
  have inv2: "roadInv g2"
    unfolding roadInv_def using g2 ok2 pos1 seg1 n by simp
  have up: "update dt cmd g = checkSpriteCollisions g2"
    using False by (simp add: update_def ps g1_def [symmetric] g2(1))
  have inv3: "roadInv (crash g2)" using inv2 roadInv_cong [of "crash g2" g2] by simp
  have cs: "carSet (segments g2) = carSet (segments g)" using g2(3) seg1 by simp
  from checkSpriteCollisions_cases [OF n2] show ?thesis
  proof
    assume "checkSpriteCollisions g2 = Inr g2"
    then show ?thesis using up inv2 cs by simp
  next
    assume "checkSpriteCollisions g2 = Inr (crash g2)"
    then show ?thesis using up inv3 cs by simp
  qed
qed

lemma run_inv:
  assumes "ticksOK ticks" and "roadInv g"
  shows "\<exists>g'. run ticks g = Inr g' \<and> roadInv g' \<and> carSet (segments g') = carSet (segments g)"
  using assms
proof (induction ticks arbitrary: g)
  case Nil
  then show ?case by simp
next
  case (Cons t ticks)
  obtain dt cmd where t: "t = (dt, cmd)" by (cases t) auto
  have dt: "0 \<le> dt" "dt \<le> 1" and rest: "ticksOK ticks"
    using Cons.prems(1) unfolding ticksOK_def t by auto
  from update_inv [OF dt Cons.prems(2)] obtain g1 where
    g1: "update dt cmd g = Inr g1" "roadInv g1" "carSet (segments g1) = carSet (segments g)" by blast
  from Cons.IH [OF rest g1(2)] obtain g' where
    "run ticks g1 = Inr g'" "roadInv g'" "carSet (segments g') = carSet (segments g1)" by blast
  then show ?case unfolding t using g1 by simp
qed

subsection \<open>Building the road\<close>

lemma randomInt_lower: "0 \<le> r \<Longrightarrow> mn \<le> mx \<Longrightarrow> mn \<le> randomInt r mn mx"
proof -
  assume "0 \<le> r" "mn \<le> mx"
  then have "0 \<le> r * of_int (mx - mn + 1)" by simp
  then have "0 \<le> \<lfloor>r * of_int (mx - mn + 1)\<rfloor>" by simp
  then show ?thesis by (simp add: randomInt_def)
qed

lemma addCar_segments:
  "length (rsegments (addCar k off spd r rd)) = length (rsegments rd)"
  "i \<noteq> k \<Longrightarrow> rsegments (addCar k off spd r rd) ! i = rsegments rd ! i"
  "k < length (rsegments rd) \<Longrightarrow>
     cars (rsegments (addCar k off spd r rd) ! k) = cars (rsegments rd ! k) @ [k]"
  by (simp_all add: addCar_def)

lemma addCar_store:
  "j \<noteq> k \<Longrightarrow> rstore (addCar k off spd r rd) j = rstore rd j"
  "z (rstore (addCar k off spd r rd) k) = real k * SEGMENT_LENGTH"
  "car.speed (rstore (addCar k off spd r rd) k) = spd"
  "car.offset (rstore (addCar k off spd r rd) k) = off"
  by (simp_all add: addCar_def)

lemma addSprite_cars:
  "cars (rsegments (addSprite k off ty rd) ! i) = cars (rsegments rd ! i)"
  by (cases "k < length (rsegments rd)") (simp_all add: addSprite_def nth_list_update list_update_beyond)

lemma addSprite_frame:
  "length (rsegments (addSprite k off ty rd)) = length (rsegments rd)"
  "rstore (addSprite k off ty rd) = rstore rd"
  by (simp_all add: addSprite_def)

lemma spawn_props:
  assumes r: "randomOK rnd" and len: "length (rsegments rd) = Suc m" and e: "cars (rsegments rd ! m) = []"
  shows "length (rsegments (spawn rnd m rd)) = Suc m"
    and "\<And>i. i < m \<Longrightarrow> rsegments (spawn rnd m rd) ! i = rsegments rd ! i"
    and "\<And>j. j \<noteq> m \<Longrightarrow> rstore (spawn rnd m rd) j = rstore rd j"
    and "cars (rsegments (spawn rnd m rd) ! m) = [] \<or>
         (cars (rsegments (spawn rnd m rd) ! m) = [m] \<and>
          z (rstore (spawn rnd m rd) m) = real m * SEGMENT_LENGTH \<and>
          0 \<le> car.speed (rstore (spawn rnd m rd) m))"
proof -
  show "length (rsegments (spawn rnd m rd)) = Suc m"
    using len by (simp add: spawn_def Let_def addCar_segments)
  show "\<And>i. i < m \<Longrightarrow> rsegments (spawn rnd m rd) ! i = rsegments rd ! i"
    by (simp add: spawn_def Let_def addCar_segments)
  show "\<And>j. j \<noteq> m \<Longrightarrow> rstore (spawn rnd m rd) j = rstore rd j"
    by (simp add: spawn_def Let_def addCar_store)
  have "0 \<le> rnd (rcalls rd + 2)" using r by (simp add: randomOK_def)
  then have "(3000::int) \<le> randomInt (rnd (rcalls rd + 2)) 3000 8000"
    by (intro randomInt_lower) simp_all
  then have sp: "(0::real) \<le> of_int (randomInt (rnd (rcalls rd + 2)) 3000 8000)" by simp
  show "cars (rsegments (spawn rnd m rd) ! m) = [] \<or>
         (cars (rsegments (spawn rnd m rd) ! m) = [m] \<and>
          z (rstore (spawn rnd m rd) m) = real m * SEGMENT_LENGTH \<and>
          0 \<le> car.speed (rstore (spawn rnd m rd) m))"
    using len e sp by (simp add: spawn_def Let_def addCar_segments addCar_store)
qed

lemma resetRoadStep_props:
  assumes r: "randomOK rnd" and len: "length (rsegments rd) = m"
  shows "length (rsegments (resetRoadStep rnd m rd)) = Suc m"
    and "\<And>i. i < m \<Longrightarrow> cars (rsegments (resetRoadStep rnd m rd) ! i) = cars (rsegments rd ! i)"
    and "\<And>j. j \<noteq> m \<Longrightarrow> rstore (resetRoadStep rnd m rd) j = rstore rd j"
    and "cars (rsegments (resetRoadStep rnd m rd) ! m) = [] \<or>
         (cars (rsegments (resetRoadStep rnd m rd) ! m) = [m] \<and>
          z (rstore (resetRoadStep rnd m rd) m) = real m * SEGMENT_LENGTH \<and>
          0 \<le> car.speed (rstore (resetRoadStep rnd m rd) m))"
proof -
  let ?rd1 = "rd\<lparr>rsegments := rsegments rd @ [newSegment m]\<rparr>"
  have l1: "length (rsegments ?rd1) = Suc m" using len by simp
  have e1: "cars (rsegments ?rd1 ! m) = []" using len by (simp add: nth_append newSegment_def)
  note sp = spawn_props [OF r l1 e1]
  have old: "\<And>i. i < m \<Longrightarrow> rsegments ?rd1 ! i = rsegments rd ! i"
    using len by (simp add: nth_append)
  show "length (rsegments (resetRoadStep rnd m rd)) = Suc m"
    unfolding resetRoadStep_def Let_def using sp(1) by (simp add: addSprite_frame addSprite_cars)
  show "\<And>i. i < m \<Longrightarrow> cars (rsegments (resetRoadStep rnd m rd) ! i) = cars (rsegments rd ! i)"
    unfolding resetRoadStep_def Let_def using sp(2) old by (simp add: addSprite_frame addSprite_cars)
  show "\<And>j. j \<noteq> m \<Longrightarrow> rstore (resetRoadStep rnd m rd) j = rstore rd j"
    unfolding resetRoadStep_def Let_def using sp(3) by (simp add: addSprite_frame addSprite_cars)
  show "cars (rsegments (resetRoadStep rnd m rd) ! m) = [] \<or>
         (cars (rsegments (resetRoadStep rnd m rd) ! m) = [m] \<and>
          z (rstore (resetRoadStep rnd m rd) m) = real m * SEGMENT_LENGTH \<and>
          0 \<le> car.speed (rstore (resetRoadStep rnd m rd) m))"
    unfolding resetRoadStep_def Let_def using sp(4) by (simp add: addSprite_frame addSprite_cars)
qed

lemma resetRoadStep_inv:
  assumes r: "randomOK rnd" and inv: "buildInv m rd"
  shows "buildInv (Suc m) (resetRoadStep rnd m rd)"
proof -
  have len: "length (rsegments rd) = m" using inv by (simp add: buildInv_def)
  note p = resetRoadStep_props [OF r len]
  show ?thesis
    unfolding buildInv_def
  proof (intro conjI allI impI)
    show "length (rsegments (resetRoadStep rnd m rd)) = Suc m" by (rule p(1))
  next
    fix i assume i: "i < Suc m"
    show "cars (rsegments (resetRoadStep rnd m rd) ! i) = [] \<or>
        (cars (rsegments (resetRoadStep rnd m rd) ! i) = [i] \<and>
         z (rstore (resetRoadStep rnd m rd) i) = real i * SEGMENT_LENGTH \<and>
         0 \<le> car.speed (rstore (resetRoadStep rnd m rd) i))"
    proof (cases "i = m")
      case True
      then show ?thesis using p(4) by simp
    next
      case False
      then have im: "i < m" using i by simp
      have "cars (rsegments rd ! i) = [] \<or>
        (cars (rsegments rd ! i) = [i] \<and> z (rstore rd i) = real i * SEGMENT_LENGTH \<and>
         0 \<le> car.speed (rstore rd i))"
        using inv im unfolding buildInv_def by blast
      then show ?thesis using p(2) [OF im] p(3) [OF False] by simp
    qed
  qed
qed

lemma fold_resetRoadStep_inv:
  assumes "randomOK rnd"
  shows "buildInv m (fold (resetRoadStep rnd) [0 ..< m] \<lparr>rsegments = [], rstore = store, rcalls = 0\<rparr>)"
proof (induction m)
  case 0
  show ?case by (simp add: buildInv_def)
next
  case (Suc m)
  then show ?case using resetRoadStep_inv [OF assms] by simp
qed

lemma resetRoad_inv: "randomOK rnd \<Longrightarrow> buildInv TOTAL_SEGMENTS (resetRoad rnd store)"
  unfolding resetRoad_def by (rule fold_resetRoadStep_inv)

lemma js_rem_small: "0 \<le> a \<Longrightarrow> a < n \<Longrightarrow> js_rem a n = a"
  by (simp add: js_rem_def)

lemma buildInv_roadInv:
  assumes b: "buildInv TOTAL_SEGMENTS rd"
      and sg: "segments g = rsegments rd" and st: "carStore g = rstore rd"
      and p0: "0 \<le> position g" and p1: "position g < real TOTAL_SEGMENTS * SEGMENT_LENGTH"
  shows "roadInv g"
proof -
  let ?segs = "rsegments rd"
  have len: "length ?segs = TOTAL_SEGMENTS" using b by (simp add: buildInv_def)
  have c: "\<And>i. i < TOTAL_SEGMENTS \<Longrightarrow> cars (?segs ! i) = [] \<or>
        (cars (?segs ! i) = [i] \<and> z (rstore rd i) = real i * SEGMENT_LENGTH \<and>
         0 \<le> car.speed (rstore rd i))"
    using b unfolding buildInv_def by blast
  have sub: "\<And>i a. i < TOTAL_SEGMENTS \<Longrightarrow> a \<in> set (cars (?segs ! i)) \<Longrightarrow>
        a = i \<and> z (rstore rd a) = real a * SEGMENT_LENGTH \<and> 0 \<le> car.speed (rstore rd a)"
    using c by fastforce
  have so: "singleOwner ?segs"
    unfolding singleOwner_def len
  proof (intro conjI allI impI)
    fix i assume "i < TOTAL_SEGMENTS"
    then show "distinct (cars (?segs ! i))" using c [of i] by auto
  next
    fix i j assume "i < TOTAL_SEGMENTS" "j < TOTAL_SEGMENTS" "i \<noteq> j"
    then show "set (cars (?segs ! i)) \<inter> set (cars (?segs ! j)) = {}"
      using sub [of i] sub [of j] by blast
  qed
  have ok: "carsOK g"
    unfolding carsOK_def sg st carSet_nth len
  proof (intro conjI ballI)
    show "0 < TOTAL_SEGMENTS" by (simp add: TOTAL_SEGMENTS_def)
  next
    fix a assume "a \<in> (\<Union>j<TOTAL_SEGMENTS. set (cars (?segs ! j)))"
    then obtain j where "j < TOTAL_SEGMENTS" "a \<in> set (cars (?segs ! j))" by auto
    from sub [OF this] have "z (rstore rd a) = real a * SEGMENT_LENGTH" "0 \<le> car.speed (rstore rd a)"
      by blast+
    then show "0 \<le> z (rstore rd a)" "0 \<le> car.speed (rstore rd a)"
      by (simp_all add: SEGMENT_LENGTH_def)
  qed
  have oi: "ownerIndex g"
    unfolding ownerIndex_def sg st len
  proof (intro allI impI ballI)
    fix i a assume i: "i < TOTAL_SEGMENTS" and a: "a \<in> set (cars (?segs ! i))"
    from sub [OF i a] have ai: "a = i" and za: "z (rstore rd a) = real a * SEGMENT_LENGTH" by blast+
    have "z (rstore rd a) / SEGMENT_LENGTH = real i"
      using za ai by (simp add: SEGMENT_LENGTH_def)
    then have "\<lfloor>z (rstore rd a) / SEGMENT_LENGTH\<rfloor> = int i"
      by simp
    then show "int i = js_rem \<lfloor>z (rstore rd a) / SEGMENT_LENGTH\<rfloor> (int TOTAL_SEGMENTS)"
      using i by (simp add: js_rem_small)
  qed
  have l: "length (segments g) = TOTAL_SEGMENTS" and s: "singleOwner (segments g)"
    using len so by (simp_all only: sg)
  show ?thesis
    unfolding roadInv_def by (intro conjI l p0 p1 ok s oi)
qed

lemma restart_inv:
  assumes "randomOK rnd"
  shows "roadInv (restart rnd g)"
proof (rule buildInv_roadInv)
  show "buildInv TOTAL_SEGMENTS (resetRoad rnd (carStore g))" by (rule resetRoad_inv [OF assms])
  show "segments (restart rnd g) = rsegments (resetRoad rnd (carStore g))"
    by (simp add: restart_def Let_def)
  show "carStore (restart rnd g) = rstore (resetRoad rnd (carStore g))"
    by (simp add: restart_def Let_def)
  show "0 \<le> position (restart rnd g)" by (simp add: restart_def Let_def)
  show "position (restart rnd g) < real TOTAL_SEGMENTS * SEGMENT_LENGTH"
    by (simp add: restart_def Let_def TOTAL_SEGMENTS_def SEGMENT_LENGTH_def)
qed

lemma newGame_restart:
  "newGame w h best rnd = restart rnd (blankGame\<lparr>width := w, height := h, highScore := best\<rparr>)"
  by (simp add: newGame_def restart_def blankGame_def Let_def)

lemma newGame_inv: "randomOK rnd \<Longrightarrow> roadInv (newGame w h best rnd)"
  unfolding newGame_restart by (rule restart_inv)

lemma elapsed_range: "lastTime \<le> now \<Longrightarrow> 0 \<le> elapsed now lastTime \<and> elapsed now lastTime \<le> 1"
  by (simp add: elapsed_def)

lemma spawn_fires:
  assumes "\<forall>k. 3 / 10 < rnd k" and "length (rsegments rd) = Suc m" and "cars (rsegments rd ! m) = []"
      and "20 < m" and "m mod 40 = 0"
  shows "cars (rsegments (spawn rnd m rd) ! m) = [m]"
  using assms by (simp add: spawn_def Let_def addCar_segments)

lemma resetRoadStep_fires:
  assumes r: "\<forall>k. 3 / 10 < rnd k" and len: "length (rsegments rd) = m" and m: "20 < m" "m mod 40 = 0"
  shows "cars (rsegments (resetRoadStep rnd m rd) ! m) = [m]"
proof -
  let ?rd1 = "rd\<lparr>rsegments := rsegments rd @ [newSegment m]\<rparr>"
  have l1: "length (rsegments ?rd1) = Suc m" using len by simp
  have e1: "cars (rsegments ?rd1 ! m) = []" using len by (simp add: nth_append newSegment_def)
  note sp = spawn_fires [OF r l1 e1 m]
  show ?thesis
    unfolding resetRoadStep_def Let_def using sp by (simp add: addSprite_cars)
qed

lemma fold_resetRoadStep_fires:
  assumes r: "\<forall>k. 3 / 10 < rnd k" and ok: "randomOK rnd"
  shows "i < m \<Longrightarrow> 20 < i \<Longrightarrow> i mod 40 = 0 \<Longrightarrow>
     cars (rsegments (fold (resetRoadStep rnd) [0 ..< m] \<lparr>rsegments = [], rstore = store, rcalls = 0\<rparr>) ! i) = [i]"
proof (induction m)
  case 0
  then show ?case by simp
next
  case (Suc m)
  let ?rd = "fold (resetRoadStep rnd) [0 ..< m] \<lparr>rsegments = [], rstore = store, rcalls = 0\<rparr>"
  have len: "length (rsegments ?rd) = m"
    using fold_resetRoadStep_inv [OF ok, of m store] by (simp add: buildInv_def)
  show ?case
  proof (cases "i = m")
    case True
    then show ?thesis using resetRoadStep_fires [OF r len] Suc.prems by simp
  next
    case False
    then have im: "i < m" using Suc.prems by simp
    then show ?thesis
      using resetRoadStep_props(2) [OF ok len im] Suc.IH [OF im Suc.prems(2,3)] by simp
  qed
qed

lemma restart_has_car: "40 \<in> carSet (segments (restart (\<lambda>_. 1 / 2) g))"
proof -
  have ok: "randomOK (\<lambda>_. 1 / 2)" by (simp add: randomOK_def)
  have "cars (rsegments (resetRoad (\<lambda>_. 1 / 2) (carStore g)) ! 40) = [40]"
    unfolding resetRoad_def
    by (rule fold_resetRoadStep_fires [OF _ ok]) (simp_all add: TOTAL_SEGMENTS_def)
  moreover have "length (rsegments (resetRoad (\<lambda>_. 1 / 2) (carStore g))) = TOTAL_SEGMENTS"
    using resetRoad_inv [OF ok] by (simp add: buildInv_def)
  ultimately have "40 \<in> (\<Union>j<length (rsegments (resetRoad (\<lambda>_. 1 / 2) (carStore g))).
                           set (cars (rsegments (resetRoad (\<lambda>_. 1 / 2) (carStore g)) ! j)))"
    by (auto simp: TOTAL_SEGMENTS_def intro!: bexI [of _ 40])
  then show ?thesis
    by (simp add: restart_def Let_def carSet_nth)
qed

subsection \<open>Ownership of the cars\<close>

text \<open>
  C2. After any number of updates from a freshly built track, with elapsed times in
  \<open>[0, 1]\<close> as the frame loop passes them, every update returns, no car is dropped, every
  car of the track is referenced from exactly one segment and only once there, and the
  index of that segment is \<open>floor(car.z / SEGMENT_LENGTH) % segments.length\<close>. The track
  is the one \<open>restart\<close> builds; the constructor builds it the same way from a blank game
  (lemma \<open>newGame_restart\<close>), with \<open>Math.random\<close> returning values in \<open>[0, 1)\<close>.
\<close>

theorem ownership_invariant:
  assumes "randomOK rnd" and "ticksOK ticks"
  shows "\<exists>g'. run ticks (restart rnd g) = Inr g' \<and>
           carSet (segments g') = carSet (segments (restart rnd g)) \<and>
           (\<forall>a \<in> carSet (segments (restart rnd g)).
              \<exists>!i. i < length (segments g') \<and> a \<in> set (cars (segments g' ! i))) \<and>
           (\<forall>i<length (segments g').
              distinct (cars (segments g' ! i)) \<and>
              (\<forall>a \<in> set (cars (segments g' ! i)).
                 int i = js_rem \<lfloor>z (carStore g' a) / SEGMENT_LENGTH\<rfloor> (int (length (segments g')))))"
proof -
  from run_inv [OF assms(2) restart_inv [OF assms(1)], of g] obtain g' where
    r: "run ticks (restart rnd g) = Inr g'" and inv: "roadInv g'"
    and cs: "carSet (segments g') = carSet (segments (restart rnd g))" by blast
  have so: "singleOwner (segments g')" and oi: "ownerIndex g'"
    using inv unfolding roadInv_def by auto
  have one: "\<exists>!i. i < length (segments g') \<and> a \<in> set (cars (segments g' ! i))"
    if "a \<in> carSet (segments (restart rnd g))" for a
  proof -
    from that have "a \<in> carSet (segments g')" by (simp only: cs)
    then have "a \<in> (\<Union>j<length (segments g'). set (cars (segments g' ! j)))"
      by (simp only: carSet_nth)
    then obtain i where i: "i < length (segments g')" "a \<in> set (cars (segments g' ! i))" by auto
    have "j = i" if "j < length (segments g')" "a \<in> set (cars (segments g' ! j))" for j
      using so i that unfolding singleOwner_def by blast
    then show ?thesis using i by blast
  qed
  have idx: "distinct (cars (segments g' ! i)) \<and>
              (\<forall>a \<in> set (cars (segments g' ! i)).
                 int i = js_rem \<lfloor>z (carStore g' a) / SEGMENT_LENGTH\<rfloor> (int (length (segments g'))))"
    if "i < length (segments g')" for i
    using so oi that unfolding singleOwner_def ownerIndex_def by blast
  show ?thesis
    using r cs one idx by blast
qed

theorem ownership_invariant_witness:
  "randomOK (\<lambda>_. 1 / 2) \<and>
   ticksOK [(1 / 64, \<lparr>steer = Num 0, accel = Num 1, brake = Num 0\<rparr>),
            (1, \<lparr>steer = Num (1 / 2), accel = Num 0, brake = Num 1\<rparr>)] \<and>
   40 \<in> carSet (segments (restart (\<lambda>_. 1 / 2) blankGame)) \<and>
   (\<exists>g'. run [(1 / 64, \<lparr>steer = Num 0, accel = Num 1, brake = Num 0\<rparr>),
               (1, \<lparr>steer = Num (1 / 2), accel = Num 0, brake = Num 1\<rparr>)]
            (restart (\<lambda>_. 1 / 2) blankGame) = Inr g' \<and>
      carSet (segments g') = carSet (segments (restart (\<lambda>_. 1 / 2) blankGame)) \<and>
      (\<forall>a \<in> carSet (segments (restart (\<lambda>_. 1 / 2) blankGame)).
          \<exists>!i. i < length (segments g') \<and> a \<in> set (cars (segments g' ! i))) \<and>
      (\<forall>i<length (segments g').
          distinct (cars (segments g' ! i)) \<and>
          (\<forall>a \<in> set (cars (segments g' ! i)).
             int i = js_rem \<lfloor>z (carStore g' a) / SEGMENT_LENGTH\<rfloor> (int (length (segments g'))))))"
proof -
  have h1: "randomOK (\<lambda>_. 1 / 2)" by (simp add: randomOK_def)
  have h2: "ticksOK [(1 / 64, \<lparr>steer = Num 0, accel = Num 1, brake = Num 0\<rparr>),
            (1, \<lparr>steer = Num (1 / 2), accel = Num 0, brake = Num 1\<rparr>)]"
    by (simp add: ticksOK_def)
  from ownership_invariant [OF h1 h2, of blankGame] h1 h2 restart_has_car [of blankGame]
  show ?thesis by blast
qed

subsection \<open>The road without obstacles\<close>

lemma lookup_Nil [simp]: "lookup [] i = None"
  by (auto simp: lookup_def)

lemma carPairs_no_cars: "\<forall>s \<in> set segs. cars s = [] \<Longrightarrow> carPairs segs = []"
  by (simp add: carPairs_def)

lemma updateTraffic_no_cars:
  assumes "\<forall>s \<in> set (segments g). cars s = []"
  shows "updateTraffic dt g = Inr (scoreTick dt g)"
proof -
  have "trafficLoop dt (position g + CAMERA_HEIGHT) (real (length (segments g)) * SEGMENT_LENGTH) g = (g, [])"
    unfolding trafficLoop_pairs carPairs_no_cars [OF assms] by simp
  then show ?thesis
    by (simp add: updateTraffic_def Let_def scoreTick_def)
qed

lemma spriteScan_no_sprites:
  assumes "0 < length (segments g)"
      and "\<forall>s \<in> set (segments g). sprites s = []"
      and "\<forall>i \<in> set is. 0 \<le> start + i + int (length (segments g))"
  shows "spriteScan is start pz tlen g = Inr g"
  using assms(3)
proof (induction "is")
  case Nil
  show ?case by simp
next
  case (Cons i "is")
  let ?n = "int (length (segments g))"
  let ?k = "js_rem (start + i + ?n) ?n"
  have "0 \<le> start + i + ?n" using Cons.prems by simp
  then have r: "0 \<le> ?k \<and> ?k < ?n"
    using js_rem_range [of "start + i + ?n" ?n] assms(1) by simp
  have l: "lookup (segments g) ?k = Some (segments g ! nat ?k)"
    using r by (simp add: lookup_Some)
  have "segments g ! nat ?k \<in> set (segments g)" using r by (intro nth_mem) linarith
  then have "sprites (segments g ! nat ?k) = []" using assms(2) by blast
  then have nh: "\<not> spriteHit g pz tlen (segments g ! nat ?k)" by (simp add: spriteHit_def)
  have "spriteScan is start pz tlen g = Inr g" using Cons by simp
  then show ?case using nh by (simp add: l Let_def)
qed

lemma checkSpriteCollisions_no_sprites:
  assumes "0 < length (segments g)" and "\<forall>s \<in> set (segments g). sprites s = []"
  shows "checkSpriteCollisions g = Inr g"
proof -
  let ?n = "int (length (segments g))"
  let ?start = "js_rem \<lfloor>(position g + CAMERA_HEIGHT) / SEGMENT_LENGTH\<rfloor> ?n"
  have "- ?n < ?start" using js_rem_lower [of ?n] assms(1) by simp
  then have "\<forall>i \<in> set [-1, 0, 1, 2]. 0 \<le> ?start + i + ?n" by simp
  from spriteScan_no_sprites [OF assms this] show ?thesis
    unfolding checkSpriteCollisions_def Let_def .
qed

lemma update_open_road:
  assumes "\<not> isGameOver g"
      and "findSegment (segments g) (position g + CAMERA_DEPTH * SEGMENT_LENGTH) = Some ps"
      and "\<forall>s \<in> set (segments g). cars s = [] \<and> sprites s = []"
  shows "update dt cmd g = Inr (scoreTick dt (updatePlayer dt cmd ps g))"
proof -
  have n: "0 < length (segments g)"
    using assms(2) by (cases "segments g") (simp_all add: findSegment_def)
  have t: "updateTraffic dt (updatePlayer dt cmd ps g) = Inr (scoreTick dt (updatePlayer dt cmd ps g))"
    by (rule updateTraffic_no_cars) (use assms(3) in simp)
  have c: "checkSpriteCollisions (scoreTick dt (updatePlayer dt cmd ps g))
             = Inr (scoreTick dt (updatePlayer dt cmd ps g))"
  proof (rule checkSpriteCollisions_no_sprites)
    show "0 < length (segments (scoreTick dt (updatePlayer dt cmd ps g)))" using n by simp
    show "\<forall>s \<in> set (segments (scoreTick dt (updatePlayer dt cmd ps g))). sprites s = []"
      using assms(3) by simp
  qed
  show ?thesis
    using assms(1) by (simp add: update_def assms(2) t c)
qed

lemma openRoad_fields [simp]:
  "segments (openRoad pos px v) = map newSegment [0 ..< TOTAL_SEGMENTS]"
  "position (openRoad pos px v) = pos" "playerX (openRoad pos px v) = px"
  "speed (openRoad pos px v) = v" "\<not> isGameOver (openRoad pos px v)"
  "score (openRoad pos px v) = 0" "highScore (openRoad pos px v) = 0"
  by (simp_all add: openRoad_def blankGame_def)

lemma openRoad_empty: "\<forall>s \<in> set (segments (openRoad pos px v)). cars s = [] \<and> sprites s = []"
  by (auto simp: newSegment_def)

lemma findSegment_openRoad:
  assumes "0 \<le> zz" "zz < real TOTAL_SEGMENTS * SEGMENT_LENGTH"
  shows "findSegment (map newSegment [0 ..< TOTAL_SEGMENTS]) zz = Some (newSegment (nat \<lfloor>zz / SEGMENT_LENGTH\<rfloor>))"
proof -
  have a: "0 \<le> zz / SEGMENT_LENGTH" "zz / SEGMENT_LENGTH < real TOTAL_SEGMENTS"
    using assms by (simp_all add: SEGMENT_LENGTH_def TOTAL_SEGMENTS_def)
  then have f: "0 \<le> \<lfloor>zz / SEGMENT_LENGTH\<rfloor>" "\<lfloor>zz / SEGMENT_LENGTH\<rfloor> < int TOTAL_SEGMENTS"
    by (simp_all add: floor_less_iff)
  then have "js_rem \<lfloor>zz / SEGMENT_LENGTH\<rfloor> (int TOTAL_SEGMENTS) = \<lfloor>zz / SEGMENT_LENGTH\<rfloor>"
    by (simp add: js_rem_small)
  moreover have "nat \<lfloor>zz / SEGMENT_LENGTH\<rfloor> < TOTAL_SEGMENTS" using f by linarith
  ultimately show ?thesis
    using f by (simp add: findSegment_def lookup_def)
qed

subsection \<open>What a step does to the player\<close>

lemma carStep_speed:
  "speed (fst (carStep dt pz tlen n i a st)) = speed (fst st) \<or> speed (fst (carStep dt pz tlen n i a st)) = 0"
  by (simp add: carStep_def Let_def)

lemma carLoop_speed:
  "speed (fst (carLoop dt pz tlen n ps st)) = speed (fst st) \<or> speed (fst (carLoop dt pz tlen n ps st)) = 0"
proof (induction ps arbitrary: st)
  case Nil
  show ?case by simp
next
  case (Cons p ps)
  show ?case
    using Cons.IH [of "carStep dt pz tlen n (fst p) (snd p) st"]
      carStep_speed [of dt pz tlen n "fst p" "snd p" st]
    by auto
qed

lemma updateTraffic_frame:
  assumes "updateTraffic dt g = Inr g'"
  shows "playerX g' = playerX g" and "position g' = position g"
    and "speed g' = speed g \<or> speed g' = 0"
proof -
  let ?st = "trafficLoop dt (position g + CAMERA_HEIGHT) (real (length (segments g)) * SEGMENT_LENGTH) g"
  obtain segs where a: "applyMoves (snd ?st) (segments (fst ?st)) = Inr segs"
    using assms by (auto simp: updateTraffic_def Let_def split: sum.splits)
  have g': "g' = scoreTick dt ((fst ?st)\<lparr>segments := segs\<rparr>)"
    using assms a by (simp add: updateTraffic_def Let_def scoreTick_def)
  show "playerX g' = playerX g" "position g' = position g"
    unfolding g' trafficLoop_pairs by (simp_all add: carLoop_frame)
  show "speed g' = speed g \<or> speed g' = 0"
    unfolding g' trafficLoop_pairs
    using carLoop_speed [of dt "position g + CAMERA_HEIGHT" "real (length (segments g)) * SEGMENT_LENGTH"
        "length (segments g)" "carPairs (segments g)" "(g, [])"]
    by simp
qed

lemma spriteScan_result:
  "spriteScan is start pz tlen g = Inr g' \<Longrightarrow> g' = g \<or> g' = crash g"
  by (induction "is") (auto simp: Let_def split: option.splits if_splits)

lemma checkSpriteCollisions_result:
  "checkSpriteCollisions g = Inr g' \<Longrightarrow> g' = g \<or> g' = crash g"
  unfolding checkSpriteCollisions_def Let_def by (rule spriteScan_result)

lemma update_player_fields:
  assumes "\<not> isGameOver g"
      and "findSegment (segments g) (position g + CAMERA_DEPTH * SEGMENT_LENGTH) = Some ps"
      and "update dt cmd g = Inr g'"
  shows "playerX g' = playerX (updatePlayer dt cmd ps g)"
    and "position g' = position (updatePlayer dt cmd ps g)"
    and "speed g' = speed (updatePlayer dt cmd ps g) \<or> speed g' = 0"
proof -
  obtain g2 where t: "updateTraffic dt (updatePlayer dt cmd ps g) = Inr g2"
    and c: "checkSpriteCollisions g2 = Inr g'"
    using assms by (auto simp: update_def split: sum.splits)
  note f = updateTraffic_frame [OF t]
  from checkSpriteCollisions_result [OF c] have r: "g' = g2 \<or> g' = crash g2" .
  show "playerX g' = playerX (updatePlayer dt cmd ps g)" using r f(1) by auto
  show "position g' = position (updatePlayer dt cmd ps g)" using r f(2) by auto
  show "speed g' = speed (updatePlayer dt cmd ps g) \<or> speed g' = 0" using r f(3) by auto
qed

lemma updatePlayer_playerX:
  "playerX (updatePlayer dt cmd ps g) =
     (let dx = jmul (jmul (Num (dt * 2)) (steer cmd)) (Num (throttle dt cmd (speed g) / MAX_SPEED))
      in jmax (Num (- 2)) (jmin (Num 2)
           (jsub (jsub (playerX g) dx)
              (jmul (jmul (jmul dx (Num (curve ps))) (Num (speed g / MAX_SPEED))) (Num (1 / 10))))))"
  by (simp add: updatePlayer_def Let_def)

lemma updatePlayer_playerX_range:
  assumes "steer cmd \<noteq> NaN" and "playerX g = Num x"
  shows "\<exists>x'. playerX (updatePlayer dt cmd ps g) = Num x' \<and> - 2 \<le> x' \<and> x' \<le> 2"
proof -
  obtain s where s: "steer cmd = Num s" using assms(1) by (cases "steer cmd") auto
  show ?thesis
    unfolding updatePlayer_playerX by (simp add: s assms(2) Let_def)
qed

subsection \<open>Throttle and brake together\<close>

text \<open>
  C10. When the accelerate and the brake values of a command are both positive, the speed
  rule applied is the acceleration rule alone, and the whole step is the step of the same
  command with the brake released.
\<close>

theorem accel_overrides_brake:
  assumes "jgt (accel cmd) (Num 0)" and "jgt (brake cmd) (Num 0)"
  shows "throttle dt cmd v = max 0 (min (v + ACCEL * numOf (accel cmd) * dt * 60) MAX_SPEED) \<and>
         update dt cmd g = update dt (cmd\<lparr>brake := Num 0\<rparr>) g"
proof -
  have t: "throttle dt cmd w = max 0 (min (w + ACCEL * numOf (accel cmd) * dt * 60) MAX_SPEED)"
    and t0: "throttle dt (cmd\<lparr>brake := Num 0\<rparr>) w = throttle dt cmd w" for w
    using assms(1) by (simp_all add: throttle_def)
  have "updatePlayer dt (cmd\<lparr>brake := Num 0\<rparr>) ps g = updatePlayer dt cmd ps g" for ps
    by (simp add: updatePlayer_def t0)
  then have "update dt (cmd\<lparr>brake := Num 0\<rparr>) g = update dt cmd g"
    by (simp add: update_def split: option.split)
  then show ?thesis using t by simp
qed

theorem accel_overrides_brake_witness:
  "jgt (accel \<lparr>steer = Num 0, accel = Num 1, brake = Num 1\<rparr>) (Num 0) \<and>
   jgt (brake \<lparr>steer = Num 0, accel = Num 1, brake = Num 1\<rparr>) (Num 0) \<and>
   throttle (1 / 64) \<lparr>steer = Num 0, accel = Num 1, brake = Num 1\<rparr> 6000 = 24375 / 4 \<and>
   update (1 / 64) \<lparr>steer = Num 0, accel = Num 1, brake = Num 1\<rparr> (openRoad 0 (Num 0) 6000)
     = update (1 / 64) \<lparr>steer = Num 0, accel = Num 1, brake = Num 0\<rparr> (openRoad 0 (Num 0) 6000)"
  using accel_overrides_brake [of "\<lparr>steer = Num 0, accel = Num 1, brake = Num 1\<rparr>" "1 / 64" 6000
      "openRoad 0 (Num 0) 6000"]
  by (simp add: CONFIG)

subsection \<open>The range of the speed\<close>

text \<open>
  C1. The claim is that the speed stays within \<open>[0, MAX_SPEED]\<close> after every step
  with an elapsed time of \<open>(0, 1]\<close>. The off-road penalty is subtracted after the
  clamp: on the road without obstacles, a player at lateral offset 1.5 and speed 3000
  who accelerates through a step of one second ends it with speed -3000.
\<close>

theorem offroad_penalty_negative_speed:
  "map_sum id speed (update 1 \<lparr>steer = Num 0, accel = Num 1, brake = Num 0\<rparr>
              (openRoad 0 (Num (3 / 2)) 3000)) = Inr (- 3000)"
proof -
  have f: "findSegment (segments (openRoad 0 (Num (3 / 2)) 3000))
             (position (openRoad 0 (Num (3 / 2)) 3000) + CAMERA_DEPTH * SEGMENT_LENGTH) = Some (newSegment 0)"
    using findSegment_openRoad [of "CAMERA_DEPTH * SEGMENT_LENGTH"]
    by (simp add: CONFIG)
  show ?thesis
    unfolding update_open_road [OF openRoad_fields(5) f openRoad_empty]
    by (simp add: updatePlayer_def throttle_def Let_def CONFIG newSegment_def curveAt_def)
qed

subsection \<open>Malformed commands\<close>

text \<open>
  C3, as stated, fails: the step uses the command as it comes. A \<open>NaN\<close> steering value
  makes the lateral offset \<open>NaN\<close>, and it is still \<open>NaN\<close> after a following step with
  a well-formed command; an accelerate value of 5 accelerates five times as much as the
  value 1 it would be clamped to (the elapsed time is 1/64 s).
\<close>

theorem malformed_command_counterexample:
  "map_sum id playerX (update (1 / 64) \<lparr>steer = NaN, accel = Num 1, brake = Num 0\<rparr>
      (openRoad 0 (Num 0) 0)) = Inr NaN \<and>
   map_sum id playerX (run [(1 / 64, \<lparr>steer = NaN, accel = Num 1, brake = Num 0\<rparr>),
                            (1 / 64, \<lparr>steer = Num 0, accel = Num 1, brake = Num 0\<rparr>)]
      (openRoad 0 (Num 0) 0)) = Inr NaN \<and>
   map_sum id speed (update (1 / 64) \<lparr>steer = Num 0, accel = Num 5, brake = Num 0\<rparr>
      (openRoad 0 (Num 0) 0)) = Inr (1875 / 4) \<and>
   map_sum id speed (update (1 / 64) \<lparr>steer = Num 0, accel = Num 1, brake = Num 0\<rparr>
      (openRoad 0 (Num 0) 0)) = Inr (375 / 4)"
proof -
  let ?bad = "\<lparr>steer = NaN, accel = Num 1, brake = Num 0\<rparr>"
  let ?good = "\<lparr>steer = Num 0, accel = Num 1, brake = Num 0\<rparr>"
  have f: "findSegment (segments (openRoad 0 (Num 0) 0))
             (position (openRoad 0 (Num 0) 0) + CAMERA_DEPTH * SEGMENT_LENGTH) = Some (newSegment 0)"
    using findSegment_openRoad [of "CAMERA_DEPTH * SEGMENT_LENGTH"]
    by (simp add: CONFIG)
  note u = update_open_road [OF openRoad_fields(5) f openRoad_empty]
  define g1 where "g1 = scoreTick (1 / 64) (updatePlayer (1 / 64) ?bad (newSegment 0) (openRoad 0 (Num 0) 0))"
  have g1: "\<not> isGameOver g1" "segments g1 = map newSegment [0 ..< TOTAL_SEGMENTS]"
    "position g1 = 375 / 256" "playerX g1 = NaN"
    unfolding g1_def
    by (simp_all add: updatePlayer_def throttle_def Let_def CONFIG newSegment_def curveAt_def)
  have f1: "findSegment (segments g1) (position g1 + CAMERA_DEPTH * SEGMENT_LENGTH) = Some (newSegment 0)"
    unfolding g1 using findSegment_openRoad [of "375 / 256 + CAMERA_DEPTH * SEGMENT_LENGTH"]
    by (simp add: CONFIG)
  have e1: "\<forall>s \<in> set (segments g1). cars s = [] \<and> sprites s = []"
    unfolding g1 by (auto simp: newSegment_def)
  have u1: "update (1 / 64) ?good g1 = Inr (scoreTick (1 / 64) (updatePlayer (1 / 64) ?good (newSegment 0) g1))"
    by (rule update_open_road [OF g1(1) f1 e1])
  have p2: "playerX (updatePlayer (1 / 64) ?good (newSegment 0) g1) = NaN"
    by (simp add: updatePlayer_playerX Let_def g1)
  have r: "run [(1 / 64, ?bad), (1 / 64, ?good)] (openRoad 0 (Num 0) 0)
            = Inr (scoreTick (1 / 64) (updatePlayer (1 / 64) ?good (newSegment 0) g1))"
    by (simp add: u g1_def [symmetric] u1)
  show ?thesis
    unfolding r unfolding u
    by (simp add: p2) (simp add: updatePlayer_def throttle_def Let_def CONFIG newSegment_def curveAt_def)
qed

lemma updatePlayer_steer_NaN:
  assumes "steer cmd = NaN"
  shows "playerX (updatePlayer dt cmd ps g) = NaN"
    and "speed (updatePlayer dt cmd ps g) = throttle dt cmd (speed g)"
  using assms by (simp_all add: updatePlayer_def Let_def)

lemma updatePlayer_speed_floor:
  "min 0 (2000 + OFF_ROAD_DECEL * dt * 60) \<le> speed (updatePlayer dt cmd ps g)"
  using updatePlayer_speed_cases [of dt cmd ps g] throttle_range [of dt cmd "speed g"] by linarith

lemma roadInv_openRoad:
  assumes "0 \<le> pos" "pos < real TOTAL_SEGMENTS * SEGMENT_LENGTH"
  shows "roadInv (openRoad pos px v)"
proof (rule buildInv_roadInv [of emptyRoad])
  show "buildInv TOTAL_SEGMENTS emptyRoad"
    by (simp add: buildInv_def emptyRoad_def newSegment_def)
qed (simp_all add: emptyRoad_def openRoad_def blankGame_def assms)

text \<open>
  C3, amended. A command is not clamped where it enters; what bounds the state are the
  clamps of the speed and of the lateral offset. Let the steering and the accelerate value
  each be \<open>NaN\<close> or a number of magnitude at most \<open>10^300\<close>, and the brake value
  anything. Then a step that is not skipped, with an elapsed time of \<open>[0, 1]\<close>, from a
  state with the lateral offset in \<open>[-2, 2]\<close> and the speed in
  \<open>[-MAX_SPEED, MAX_SPEED]\<close>, returns; the speed is at most \<open>MAX_SPEED\<close>, and at
  least 0 or, where the off-road penalty has been subtracted after the clamp, at least
  \<open>2000 + OFF_ROAD_DECEL * dt * 60\<close>; the position lies within the track. If the
  steering value is a number, the lateral offset is a number of \<open>[-2, 2]\<close>. If it is
  \<open>NaN\<close>, the lateral offset becomes \<open>NaN\<close> and the speed lies in
  \<open>[0, MAX_SPEED]\<close>.
\<close>

theorem unclamped_command_state_range:
  assumes "0 \<le> dt" and "dt \<le> 1" and "roadInv g" and "\<not> isGameOver g"
      and "noOverflow (steer cmd)" and "noOverflow (accel cmd)"
      and "playerX g = Num x" and "- 2 \<le> x" and "x \<le> 2"
      and "- MAX_SPEED \<le> speed g" and "speed g \<le> MAX_SPEED"
  shows "\<exists>g'. update dt cmd g = Inr g' \<and>
           speed g' \<le> MAX_SPEED \<and> min 0 (2000 + OFF_ROAD_DECEL * dt * 60) \<le> speed g' \<and>
           0 \<le> position g' \<and> position g' < real (length (segments g')) * SEGMENT_LENGTH \<and>
           (case steer cmd of
              NaN \<Rightarrow> playerX g' = NaN \<and> 0 \<le> speed g'
            | Num s \<Rightarrow> (\<exists>x'. playerX g' = Num x' \<and> - 2 \<le> x' \<and> x' \<le> 2))"
proof -
  from update_inv [OF assms(1,2,3), of cmd] obtain g' where
    u: "update dt cmd g = Inr g'" and inv: "roadInv g'" by blast
  have pos: "0 \<le> position g' \<and> position g' < real (length (segments g')) * SEGMENT_LENGTH"
    using inv unfolding roadInv_def by simp
  have n: "length (segments g) = TOTAL_SEGMENTS" and p: "0 \<le> position g"
    using assms(3) unfolding roadInv_def by auto
  have "0 \<le> position g + CAMERA_DEPTH * SEGMENT_LENGTH"
    using p by (simp add: CONFIG)
  moreover have "0 < length (segments g)" using n by (simp add: TOTAL_SEGMENTS_def)
  ultimately obtain ps where
    ps: "findSegment (segments g) (position g + CAMERA_DEPTH * SEGMENT_LENGTH) = Some ps"
    using findSegment_Some by blast
  note f = update_player_fields [OF assms(4) ps u]
  have "speed (updatePlayer dt cmd ps g) \<le> MAX_SPEED"
    by (rule updatePlayer_speed_upper [OF assms(1)])
  then have hi: "speed g' \<le> MAX_SPEED" using f(3) by (auto simp: MAX_SPEED_def)
  have lo: "min 0 (2000 + OFF_ROAD_DECEL * dt * 60) \<le> speed g'"
    using f(3) updatePlayer_speed_floor [of dt cmd ps g] by auto
  have px: "(case steer cmd of
              NaN \<Rightarrow> playerX g' = NaN \<and> 0 \<le> speed g'
            | Num s \<Rightarrow> (\<exists>x'. playerX g' = Num x' \<and> - 2 \<le> x' \<and> x' \<le> 2))"
  proof (cases "steer cmd")
    case NaN
    have "0 \<le> speed g'"
      using f(3) updatePlayer_steer_NaN(2) [OF NaN, of dt ps g] throttle_range [of dt cmd "speed g"]
      by auto
    then show ?thesis
      using NaN f(1) updatePlayer_steer_NaN(1) [OF NaN, of dt ps g] by simp
  next
    case (Num s)
    then have "steer cmd \<noteq> NaN" by simp
    from updatePlayer_playerX_range [OF this assms(7), of dt ps] show ?thesis
      using Num f(1) by simp
  qed
  show ?thesis using u hi lo pos px by blast
qed

lemma open_step:
  "0 \<le> pos \<Longrightarrow> pos + CAMERA_DEPTH * SEGMENT_LENGTH < SEGMENT_LENGTH \<Longrightarrow>
   update dt cmd (openRoad pos px v) = Inr (scoreTick dt (updatePlayer dt cmd (newSegment 0) (openRoad pos px v)))"
proof -
  assume a: "0 \<le> pos" "pos + CAMERA_DEPTH * SEGMENT_LENGTH < SEGMENT_LENGTH"
  have f: "findSegment (segments (openRoad pos px v))
             (position (openRoad pos px v) + CAMERA_DEPTH * SEGMENT_LENGTH) = Some (newSegment 0)"
    using findSegment_openRoad [of "pos + CAMERA_DEPTH * SEGMENT_LENGTH"] a
    by (simp add: CONFIG)
  show ?thesis
    by (rule update_open_road [OF openRoad_fields(5) f openRoad_empty])
qed

theorem unclamped_command_state_range_witness:
  "(0::real) \<le> 1 / 8 \<and> (1 / 8 :: real) \<le> 1 \<and> roadInv (openRoad 0 (Num (- 1)) 6000) \<and>
   \<not> isGameOver (openRoad 0 (Num (- 1)) 6000) \<and>
   noOverflow (steer wildCommand) \<and> noOverflow (accel wildCommand) \<and>
   noOverflow (steer nanCommand) \<and> noOverflow (accel nanCommand) \<and>
   playerX (openRoad 0 (Num (- 1)) 6000) = Num (- 1) \<and>
   - MAX_SPEED \<le> speed (openRoad 0 (Num (- 1)) 6000) \<and> speed (openRoad 0 (Num (- 1)) 6000) \<le> MAX_SPEED \<and>
   (\<exists>g'. update (1 / 8) wildCommand (openRoad 0 (Num (- 1)) 6000) = Inr g' \<and>
          playerX g' = Num (- 2) \<and> speed g' = 10500 \<and> position g' = 2625 / 2 \<and>
          speed g' \<le> MAX_SPEED \<and> min 0 (2000 + OFF_ROAD_DECEL * (1 / 8) * 60) \<le> speed g' \<and>
          0 \<le> position g' \<and> position g' < real (length (segments g')) * SEGMENT_LENGTH) \<and>
   (\<exists>g'. update (1 / 8) nanCommand (openRoad 0 (Num (- 1)) 6000) = Inr g' \<and>
          playerX g' = NaN \<and> speed g' = 5625 \<and> position g' = 5625 / 8 \<and>
          speed g' \<le> MAX_SPEED \<and> 0 \<le> speed g' \<and>
          0 \<le> position g' \<and> position g' < real (length (segments g')) * SEGMENT_LENGTH)"
proof -
  let ?g = "openRoad 0 (Num (- 1)) 6000"
  have r: "roadInv ?g" by (rule roadInv_openRoad) (simp_all add: CONFIG)
  have n1: "noOverflow (steer wildCommand)" "noOverflow (accel wildCommand)"
    and n2: "noOverflow (steer nanCommand)" "noOverflow (accel nanCommand)"
    by (simp_all add: noOverflow_def wildCommand_def nanCommand_def)
  have s: "- MAX_SPEED \<le> speed ?g" "speed ?g \<le> MAX_SPEED" by (simp_all add: MAX_SPEED_def)
  have u1: "update (1 / 8) wildCommand ?g = Inr (scoreTick (1 / 8) (updatePlayer (1 / 8) wildCommand (newSegment 0) ?g))"
    and u2: "update (1 / 8) nanCommand ?g = Inr (scoreTick (1 / 8) (updatePlayer (1 / 8) nanCommand (newSegment 0) ?g))"
    by (rule open_step; simp add: CONFIG)+
  have v1: "playerX (updatePlayer (1 / 8) wildCommand (newSegment 0) ?g) = Num (- 2)"
    "speed (updatePlayer (1 / 8) wildCommand (newSegment 0) ?g) = 10500"
    "position (updatePlayer (1 / 8) wildCommand (newSegment 0) ?g) = 2625 / 2"
    by (simp_all add: updatePlayer_def throttle_def Let_def CONFIG newSegment_def curveAt_def wildCommand_def)
  have v2: "playerX (updatePlayer (1 / 8) nanCommand (newSegment 0) ?g) = NaN"
    "speed (updatePlayer (1 / 8) nanCommand (newSegment 0) ?g) = 5625"
    "position (updatePlayer (1 / 8) nanCommand (newSegment 0) ?g) = 5625 / 8"
    by (simp_all add: updatePlayer_def throttle_def Let_def CONFIG newSegment_def curveAt_def nanCommand_def)
  have st: "steer wildCommand = Num 7" "steer nanCommand = NaN"
    by (simp_all add: wildCommand_def nanCommand_def)
  from unclamped_command_state_range [OF _ _ r openRoad_fields(5) n1 openRoad_fields(3) _ _ s, of "1 / 8"]
       unclamped_command_state_range [OF _ _ r openRoad_fields(5) n2 openRoad_fields(3) _ _ s, of "1 / 8"]
       r n1 n2 s
  show ?thesis
    unfolding u1 u2 st by (simp add: v1 v2)
qed

subsection \<open>The lateral update\<close>

text \<open>
  C4, amended. In every step that is not skipped, the lateral offset becomes the old
  offset minus the steering displacement \<open>dx = dt * 2 * steer * (speed / MAX_SPEED)\<close>
  (with the speed just updated) minus \<open>dx * curve * ratio * 0.1\<close> (with the curve of
  the player's segment and the speed ratio from before the step), clamped to
  \<open>[-2, 2]\<close>. The curvature term is a multiple of the steering displacement: with a
  steering value of zero the offset does not change, whatever the curve and the speed.
\<close>

theorem lateral_update:
  assumes "\<not> isGameOver g"
      and "findSegment (segments g) (position g + CAMERA_DEPTH * SEGMENT_LENGTH) = Some playerSegment"
      and "update dt cmd g = Inr g'"
  shows "playerX g' =
           (let dx = jmul (jmul (Num (dt * 2)) (steer cmd)) (Num (throttle dt cmd (speed g) / MAX_SPEED))
            in jmax (Num (- 2)) (jmin (Num 2)
                 (jsub (jsub (playerX g) dx)
                    (jmul (jmul (jmul dx (Num (curve playerSegment))) (Num (speed g / MAX_SPEED)))
                       (Num (1 / 10)))))) \<and>
         (\<forall>x. steer cmd = Num 0 \<and> playerX g = Num x \<and> - 2 \<le> x \<and> x \<le> 2 \<longrightarrow> playerX g' = Num x)"
proof -
  have p: "playerX g' = playerX (updatePlayer dt cmd playerSegment g)"
    by (rule update_player_fields(1) [OF assms])
  show ?thesis
    unfolding p updatePlayer_playerX by (auto simp: Let_def)
qed

lemma findSegment_curve:
  "findSegment (segments (openRoad 30000 (Num 0) 6000))
     (position (openRoad 30000 (Num 0) 6000) + CAMERA_DEPTH * SEGMENT_LENGTH) = Some (newSegment 150)"
  using findSegment_openRoad [of "30000 + CAMERA_DEPTH * SEGMENT_LENGTH"]
  by (simp add: CONFIG)

theorem lateral_update_witness:
  "\<not> isGameOver (openRoad 30000 (Num 0) 6000) \<and>
   findSegment (segments (openRoad 30000 (Num 0) 6000))
     (position (openRoad 30000 (Num 0) 6000) + CAMERA_DEPTH * SEGMENT_LENGTH) = Some (newSegment 150) \<and>
   update (1 / 64) \<lparr>steer = Num 1, accel = Num 1, brake = Num 0\<rparr> (openRoad 30000 (Num 0) 6000)
     = Inr (scoreTick (1 / 64) (updatePlayer (1 / 64) \<lparr>steer = Num 1, accel = Num 1, brake = Num 0\<rparr>
              (newSegment 150) (openRoad 30000 (Num 0) 6000))) \<and>
   playerX (scoreTick (1 / 64) (updatePlayer (1 / 64) \<lparr>steer = Num 1, accel = Num 1, brake = Num 0\<rparr>
              (newSegment 150) (openRoad 30000 (Num 0) 6000))) = Num (- (143 / 8192))"
proof -
  note u = update_open_road [OF openRoad_fields(5) findSegment_curve openRoad_empty,
      of "1 / 64" "\<lparr>steer = Num 1, accel = Num 1, brake = Num 0\<rparr>"]
  from lateral_update [OF openRoad_fields(5) findSegment_curve u] findSegment_curve u
  show ?thesis
    by (simp add: throttle_def Let_def CONFIG newSegment_def curveAt_def)
qed

text \<open>
  C4, as stated, fails: on segment 150, whose curve is 2, at speed 6000 and with a
  steering value of zero, the lateral offset stays 0 through the step.
\<close>

theorem curve_drift_counterexample:
  "curve (newSegment 150) = 2 \<and>
   findSegment (segments (openRoad 30000 (Num 0) 6000))
     (position (openRoad 30000 (Num 0) 6000) + CAMERA_DEPTH * SEGMENT_LENGTH) = Some (newSegment 150) \<and>
   map_sum id speed (update (1 / 64) \<lparr>steer = Num 0, accel = Num 1, brake = Num 0\<rparr>
      (openRoad 30000 (Num 0) 6000)) = Inr (24375 / 4) \<and>
   map_sum id playerX (update (1 / 64) \<lparr>steer = Num 0, accel = Num 1, brake = Num 0\<rparr>
      (openRoad 30000 (Num 0) 6000)) = Inr (Num 0)"
  unfolding update_open_road [OF openRoad_fields(5) findSegment_curve openRoad_empty]
  using findSegment_curve
  by (simp add: updatePlayer_def throttle_def Let_def CONFIG newSegment_def curveAt_def)

subsection \<open>Collisions, scores and flags in the traffic loop\<close>

lemma overlap_same: "0 \<le> w1 \<Longrightarrow> 0 \<le> w2 \<Longrightarrow> overlap (Num x) w1 x w2"
  by (simp add: overlap_def Let_def)

lemma carStep_offset:
  "car.offset (carStore (fst (carStep dt pz tlen n i a st)) b) = car.offset (carStore (fst st) b)"
  by (cases "b = a") (simp_all add: carStep_store_same carStep_store_other)

lemma carStep_no_hit:
  assumes "\<not> overlap (playerX (fst st)) (15 / 100) (car.offset (carStore (fst st) a)) (45 / 100)"
  shows "isGameOver (fst (carStep dt pz tlen n i a st)) = isGameOver (fst st)"
    and "highScore (fst (carStep dt pz tlen n i a st)) = highScore (fst st)"
    and "speed (fst (carStep dt pz tlen n i a st)) = speed (fst st)"
  using assms by (simp_all add: carStep_def Let_def carCollides_def)

lemma carLoop_no_hit:
  assumes "\<forall>b \<in> snd ` set ps.
             \<not> overlap (playerX (fst st)) (15 / 100) (car.offset (carStore (fst st) b)) (45 / 100)"
  shows "isGameOver (fst (carLoop dt pz tlen n ps st)) = isGameOver (fst st) \<and>
         highScore (fst (carLoop dt pz tlen n ps st)) = highScore (fst st) \<and>
         speed (fst (carLoop dt pz tlen n ps st)) = speed (fst st)"
  using assms
proof (induction ps arbitrary: st)
  case Nil
  show ?case by simp
next
  case (Cons p ps)
  let ?st1 = "carStep dt pz tlen n (fst p) (snd p) st"
  have h: "\<not> overlap (playerX (fst st)) (15 / 100) (car.offset (carStore (fst st) (snd p))) (45 / 100)"
    using Cons.prems by simp
  have "\<forall>b \<in> snd ` set ps.
          \<not> overlap (playerX (fst ?st1)) (15 / 100) (car.offset (carStore (fst ?st1) b)) (45 / 100)"
    using Cons.prems by (simp add: carStep_offset)
  from Cons.IH [OF this] show ?case
    using carStep_no_hit [OF h, of dt pz tlen n "fst p"] by simp
qed

lemma crash_highScore: "\<lfloor>score g\<rfloor> \<le> highScore (crash g) \<and> highScore g \<le> highScore (crash g) \<and>
   highScore (crash g) \<le> max (highScore g) \<lfloor>score g\<rfloor>"
proof (cases "score g > of_int (highScore g)")
  case True
  then have "highScore g \<le> \<lfloor>score g\<rfloor>" by (simp add: le_floor_iff)
  then show ?thesis using True by (simp add: crash_def Let_def)
next
  case False
  then have "\<lfloor>score g\<rfloor> \<le> highScore g" by (simp add: floor_le_iff)
  then show ?thesis using False by (simp add: crash_def Let_def)
qed

lemma carStep_score:
  "score (fst (carStep dt pz tlen n i a st)) =
     score (fst st) + (if closeCallFires (playerX (fst st))
                            (wrapDist tlen (advanceZ dt tlen (carStore (fst st) a) - pz))
                            ((carStore (fst st) a)\<lparr>z := advanceZ dt tlen (carStore (fst st) a)\<rparr>)
                       then 500 else 0)"
  by (simp add: carStep_def Let_def triggerCloseCall_def)

lemma carStep_flag:
  "justPassed (carStore (fst (carStep dt pz tlen n i a st)) a) =
     passedFlag (playerX (fst st)) (wrapDist tlen (advanceZ dt tlen (carStore (fst st) a) - pz))
       ((carStore (fst st) a)\<lparr>z := advanceZ dt tlen (carStore (fst st) a)\<rparr>)"
  by (simp add: carStep_def Let_def)

lemma carStep_scores:
  "score (fst st) \<le> score (fst (carStep dt pz tlen n i a st)) \<and>
   highScore (fst st) \<le> highScore (fst (carStep dt pz tlen n i a st)) \<and>
   highScore (fst (carStep dt pz tlen n i a st))
     \<le> max (highScore (fst st)) \<lfloor>score (fst (carStep dt pz tlen n i a st))\<rfloor> \<and>
   (isGameOver (fst st) \<longrightarrow> isGameOver (fst (carStep dt pz tlen n i a st)))"
proof -
  let ?g = "fst st"
  let ?c1 = "(carStore ?g a)\<lparr>z := advanceZ dt tlen (carStore ?g a)\<rparr>"
  let ?d = "wrapDist tlen (z ?c1 - pz)"
  let ?g1 = "(if closeCallFires (playerX ?g) ?d ?c1 then triggerCloseCall ?g else ?g)"
  let ?c2 = "?c1\<lparr>justPassed := passedFlag (playerX ?g) ?d ?c1\<rparr>"
  let ?g2 = "?g1\<lparr>carStore := (carStore ?g1)(a := ?c2)\<rparr>"
  have e: "fst (carStep dt pz tlen n i a st) = (if carCollides (playerX ?g2) ?d ?c2 then crash ?g2 else ?g2)"
    by (simp add: carStep_def Let_def)
  have s2: "score ?g \<le> score ?g2" "highScore ?g2 = highScore ?g" "isGameOver ?g2 = isGameOver ?g"
    by (simp_all add: triggerCloseCall_def)
  show ?thesis
  proof (cases "carCollides (playerX ?g2) ?d ?c2")
    case True
    then have f: "fst (carStep dt pz tlen n i a st) = crash ?g2" using e by simp
    show ?thesis
      unfolding f using crash_highScore [of ?g2] s2 by simp
  next
    case False
    then have f: "fst (carStep dt pz tlen n i a st) = ?g2" using e by simp
    show ?thesis
      unfolding f using s2 by simp
  qed
qed

lemma carStep_crash:
  assumes "carCollides (playerX (fst st))
             (wrapDist tlen (advanceZ dt tlen (carStore (fst st) a) - pz)) (carStore (fst st) a)"
  shows "isGameOver (fst (carStep dt pz tlen n i a st)) \<and>
         speed (fst (carStep dt pz tlen n i a st)) = 0 \<and>
         \<lfloor>score (fst st)\<rfloor> \<le> highScore (fst (carStep dt pz tlen n i a st))"
proof -
  let ?g = "fst st"
  let ?c1 = "(carStore ?g a)\<lparr>z := advanceZ dt tlen (carStore ?g a)\<rparr>"
  let ?d = "wrapDist tlen (z ?c1 - pz)"
  let ?g1 = "(if closeCallFires (playerX ?g) ?d ?c1 then triggerCloseCall ?g else ?g)"
  let ?c2 = "?c1\<lparr>justPassed := passedFlag (playerX ?g) ?d ?c1\<rparr>"
  let ?g2 = "?g1\<lparr>carStore := (carStore ?g1)(a := ?c2)\<rparr>"
  have c: "carCollides (playerX ?g2) ?d ?c2" using assms by (simp add: carCollides_def)
  have e: "fst (carStep dt pz tlen n i a st) = crash ?g2"
    using c by (simp add: carStep_def Let_def)
  have "score ?g \<le> score ?g2" by (simp add: triggerCloseCall_def)
  then have "\<lfloor>score ?g\<rfloor> \<le> \<lfloor>score ?g2\<rfloor>" by (rule floor_mono)
  then show ?thesis
    unfolding e using crash_highScore [of ?g2] by simp
qed

lemma carLoop_scores:
  "score (fst st) \<le> score (fst (carLoop dt pz tlen n ps st)) \<and>
   highScore (fst st) \<le> highScore (fst (carLoop dt pz tlen n ps st)) \<and>
   highScore (fst (carLoop dt pz tlen n ps st))
     \<le> max (highScore (fst st)) \<lfloor>score (fst (carLoop dt pz tlen n ps st))\<rfloor> \<and>
   (isGameOver (fst st) \<longrightarrow> isGameOver (fst (carLoop dt pz tlen n ps st))) \<and>
   (speed (fst st) = 0 \<longrightarrow> speed (fst (carLoop dt pz tlen n ps st)) = 0)"
proof (induction ps arbitrary: st)
  case Nil
  show ?case by simp
next
  case (Cons p ps)
  let ?st1 = "carStep dt pz tlen n (fst p) (snd p) st"
  let ?r = "carLoop dt pz tlen n ps ?st1"
  note a = carStep_scores [of st dt pz tlen n "fst p" "snd p"]
  note b = Cons.IH [of ?st1]
  note v = carStep_speed [of dt pz tlen n "fst p" "snd p" st]
  have f: "\<lfloor>score (fst ?st1)\<rfloor> \<le> \<lfloor>score (fst ?r)\<rfloor>" using b by (intro floor_mono) simp
  have 1: "score (fst st) \<le> score (fst ?r)" using a b by linarith
  have 2: "highScore (fst st) \<le> highScore (fst ?r)" using a b by linarith
  have 3: "highScore (fst ?r) \<le> max (highScore (fst st)) \<lfloor>score (fst ?r)\<rfloor>" using a b f by linarith
  have 4: "isGameOver (fst st) \<longrightarrow> isGameOver (fst ?r)" using a b by blast
  have 5: "speed (fst st) = 0 \<longrightarrow> speed (fst ?r) = 0" using v b by auto
  show ?case using 1 2 3 4 5 by simp
qed

subsection \<open>Roads with a few cars\<close>

lemma buildInv_emptyRoad: "buildInv TOTAL_SEGMENTS emptyRoad"
  by (simp add: buildInv_def emptyRoad_def newSegment_def)

lemma addCar_buildInv:
  assumes "buildInv m rd" "k < m" "0 \<le> spd" "cars (rsegments rd ! k) = []"
  shows "buildInv m (addCar k off spd r rd)"
proof -
  have len: "length (rsegments rd) = m" using assms(1) by (simp add: buildInv_def)
  show ?thesis
    unfolding buildInv_def
  proof (intro conjI allI impI)
    show "length (rsegments (addCar k off spd r rd)) = m" using len by (simp add: addCar_segments)
  next
    fix i assume i: "i < m"
    show "cars (rsegments (addCar k off spd r rd) ! i) = [] \<or>
        (cars (rsegments (addCar k off spd r rd) ! i) = [i] \<and>
         z (rstore (addCar k off spd r rd) i) = real i * SEGMENT_LENGTH \<and>
         0 \<le> car.speed (rstore (addCar k off spd r rd) i))"
    proof (cases "i = k")
      case True
      then show ?thesis using assms(2,3,4) len by (simp add: addCar_segments addCar_store)
    next
      case False
      have "cars (rsegments rd ! i) = [] \<or>
        (cars (rsegments rd ! i) = [i] \<and> z (rstore rd i) = real i * SEGMENT_LENGTH \<and>
         0 \<le> car.speed (rstore rd i))"
        using assms(1) i unfolding buildInv_def by blast
      then show ?thesis using False by (simp add: addCar_segments addCar_store)
    qed
  qed
qed

lemma emptyRoad_cars: "i < TOTAL_SEGMENTS \<Longrightarrow> cars (rsegments emptyRoad ! i) = []"
  by (simp add: emptyRoad_def newSegment_def)

lemma buildInv_twoCars: "buildInv TOTAL_SEGMENTS twoCars"
  unfolding twoCars_def
  by (intro addCar_buildInv buildInv_emptyRoad)
     (simp_all add: addCar_segments emptyRoad_cars TOTAL_SEGMENTS_def)

lemma buildInv_oneCar: "buildInv TOTAL_SEGMENTS oneCar"
  unfolding oneCar_def
  by (intro addCar_buildInv buildInv_emptyRoad) (simp_all add: emptyRoad_cars TOTAL_SEGMENTS_def)

lemma buildInv_lastCar: "buildInv TOTAL_SEGMENTS lastCar"
  unfolding lastCar_def
  by (intro addCar_buildInv buildInv_emptyRoad) (simp_all add: emptyRoad_cars TOTAL_SEGMENTS_def)

lemma roadGame_fields [simp]:
  "segments (roadGame rd pos px v) = rsegments rd" "carStore (roadGame rd pos px v) = rstore rd"
  "position (roadGame rd pos px v) = pos" "playerX (roadGame rd pos px v) = px"
  "speed (roadGame rd pos px v) = v" "\<not> isGameOver (roadGame rd pos px v)"
  "score (roadGame rd pos px v) = 0" "highScore (roadGame rd pos px v) = 0"
  by (simp_all add: roadGame_def blankGame_def)

lemma roadGame_inv:
  "buildInv TOTAL_SEGMENTS rd \<Longrightarrow> 0 \<le> pos \<Longrightarrow> pos < real TOTAL_SEGMENTS * SEGMENT_LENGTH \<Longrightarrow>
   roadInv (roadGame rd pos px v)"
  by (rule buildInv_roadInv) simp_all

lemma buildInv_carSet:
  assumes "buildInv m rd"
  shows "carSet (rsegments rd) = {i. i < m \<and> cars (rsegments rd ! i) = [i]}"
proof -
  have len: "length (rsegments rd) = m" using assms by (simp add: buildInv_def)
  have c: "\<And>i. i < m \<Longrightarrow> cars (rsegments rd ! i) = [] \<or> cars (rsegments rd ! i) = [i]"
    using assms unfolding buildInv_def by blast
  show ?thesis
    unfolding carSet_nth len
  proof (intro set_eqI iffI)
    fix a assume "a \<in> (\<Union>j<m. set (cars (rsegments rd ! j)))"
    then obtain j where j: "j < m" "a \<in> set (cars (rsegments rd ! j))" by auto
    then have "cars (rsegments rd ! j) = [j]" using c [of j] by auto
    then show "a \<in> {i. i < m \<and> cars (rsegments rd ! i) = [i]}" using j by auto
  next
    fix a assume "a \<in> {i. i < m \<and> cars (rsegments rd ! i) = [i]}"
    then show "a \<in> (\<Union>j<m. set (cars (rsegments rd ! j)))" by force
  qed
qed

lemma addCar_cars_nth:
  "k < length (rsegments rd) \<Longrightarrow>
   cars (rsegments (addCar k off spd r rd) ! i) =
     (if i = k then cars (rsegments rd ! k) @ [k] else cars (rsegments rd ! i))"
  by (simp add: addCar_segments)

lemma length_emptyRoad [simp]: "length (rsegments emptyRoad) = TOTAL_SEGMENTS"
  by (simp add: emptyRoad_def)

lemma twoCars_cars:
  "i < TOTAL_SEGMENTS \<Longrightarrow> cars (rsegments twoCars ! i) = (if i = 6 then [6] else if i = 5 then [5] else [])"
  by (simp add: twoCars_def addCar_cars_nth addCar_segments(1) emptyRoad_cars TOTAL_SEGMENTS_def)

lemma carSet_twoCars: "carSet (rsegments twoCars) = {5, 6}"
  unfolding buildInv_carSet [OF buildInv_twoCars]
  by (auto simp: twoCars_cars TOTAL_SEGMENTS_def split: if_splits)

lemma oneCar_cars:
  "i < TOTAL_SEGMENTS \<Longrightarrow> cars (rsegments oneCar ! i) = (if i = 5 then [5] else [])"
  by (simp add: oneCar_def addCar_cars_nth emptyRoad_cars TOTAL_SEGMENTS_def)

lemma carSet_oneCar: "carSet (rsegments oneCar) = {5}"
  unfolding buildInv_carSet [OF buildInv_oneCar]
  by (auto simp: oneCar_cars TOTAL_SEGMENTS_def split: if_splits)

lemma lastCar_cars:
  "i < TOTAL_SEGMENTS \<Longrightarrow> cars (rsegments lastCar ! i) = (if i = 1960 then [1960] else [])"
  by (simp add: lastCar_def addCar_cars_nth emptyRoad_cars TOTAL_SEGMENTS_def)

lemma carSet_lastCar: "carSet (rsegments lastCar) = {1960}"
  unfolding buildInv_carSet [OF buildInv_lastCar]
  by (auto simp: lastCar_cars TOTAL_SEGMENTS_def split: if_splits)

subsection \<open>The traffic update as a whole\<close>

lemma updateTraffic_loop:
  assumes "updateTraffic dt g = Inr g'"
  shows "\<exists>segs. g' = scoreTick dt
           ((fst (carLoop dt (position g + CAMERA_HEIGHT) (real (length (segments g)) * SEGMENT_LENGTH)
                    (length (segments g)) (carPairs (segments g)) (g, [])))\<lparr>segments := segs\<rparr>)"
proof -
  let ?st = "trafficLoop dt (position g + CAMERA_HEIGHT) (real (length (segments g)) * SEGMENT_LENGTH) g"
  obtain segs where a: "applyMoves (snd ?st) (segments (fst ?st)) = Inr segs"
    using assms by (auto simp: updateTraffic_def Let_def split: sum.splits)
  have "g' = scoreTick dt ((fst ?st)\<lparr>segments := segs\<rparr>)"
    using assms a by (simp add: updateTraffic_def Let_def scoreTick_def)
  then show ?thesis unfolding trafficLoop_pairs by blast
qed

lemma updateTraffic_no_hit:
  assumes dt: "0 \<le> dt" and ok: "carsOK g" and so: "singleOwner (segments g)"
      and nh: "\<forall>a \<in> carSet (segments g).
                 \<not> overlap (playerX g) (15 / 100) (car.offset (carStore g a)) (45 / 100)"
  shows "\<exists>g'. updateTraffic dt g = Inr g' \<and> isGameOver g' = isGameOver g \<and>
           speed g' = speed g \<and> highScore g' = highScore g"
proof -
  from updateTraffic_ok [OF dt ok so] obtain g' where u: "updateTraffic dt g = Inr g'" by blast
  let ?L = "carLoop dt (position g + CAMERA_HEIGHT) (real (length (segments g)) * SEGMENT_LENGTH)
              (length (segments g)) (carPairs (segments g)) (g, [])"
  from updateTraffic_loop [OF u] obtain segs where g': "g' = scoreTick dt ((fst ?L)\<lparr>segments := segs\<rparr>)"
    by blast
  have "\<forall>b \<in> snd ` set (carPairs (segments g)).
          \<not> overlap (playerX (fst (g, []))) (15 / 100) (car.offset (carStore (fst (g, [])) b)) (45 / 100)"
    using nh by (simp add: snd_set_carPairs)
  from carLoop_no_hit [OF this] have
    "isGameOver (fst ?L) = isGameOver g \<and> highScore (fst ?L) = highScore g \<and> speed (fst ?L) = speed g"
    by simp
  then show ?thesis using u unfolding g' by simp
qed

lemma updateTraffic_crash:
  assumes dt: "0 \<le> dt" and ok: "carsOK g" and so: "singleOwner (segments g)"
      and a: "a \<in> carSet (segments g)"
      and px: "playerX g = Num (car.offset (carStore g a))"
      and d: "\<bar>wrapDist (real (length (segments g)) * SEGMENT_LENGTH)
                (advanceZ dt (real (length (segments g)) * SEGMENT_LENGTH) (carStore g a)
                   - (position g + CAMERA_HEIGHT))\<bar> < 200"
  shows "\<exists>g'. updateTraffic dt g = Inr g' \<and> isGameOver g' \<and> speed g' = 0 \<and>
           max (highScore g) \<lfloor>score g\<rfloor> \<le> highScore g' \<and>
           highScore g' \<le> max (highScore g) \<lfloor>score g'\<rfloor>"
proof -
  let ?pz = "position g + CAMERA_HEIGHT"
  let ?tl = "real (length (segments g)) * SEGMENT_LENGTH"
  let ?n = "length (segments g)"
  let ?ps = "carPairs (segments g)"
  from updateTraffic_ok [OF dt ok so] obtain g' where u: "updateTraffic dt g = Inr g'" by blast
  let ?L = "carLoop dt ?pz ?tl ?n ?ps (g, [])"
  from updateTraffic_loop [OF u] obtain segs where g': "g' = scoreTick dt ((fst ?L)\<lparr>segments := segs\<rparr>)"
    by blast
  have "a \<in> snd ` set ?ps" using a by (simp add: snd_set_carPairs)
  then obtain i where "(i, a) \<in> set ?ps" by force
  then obtain ps1 ps2 where sp: "?ps = ps1 @ (i, a) # ps2" by (meson split_list)
  have dd: "distinct (map snd ?ps)" by (rule distinct_carPairs [OF so])
  have notin: "a \<notin> snd ` set ps1" using dd unfolding sp by auto
  let ?st1 = "carLoop dt ?pz ?tl ?n ps1 (g, [])"
  let ?st2 = "carStep dt ?pz ?tl ?n i a ?st1"
  have L: "?L = carLoop dt ?pz ?tl ?n ps2 ?st2" unfolding sp by simp
  have c1: "carStore (fst ?st1) a = carStore g a"
    using carLoop_store_other [OF notin, of dt ?pz ?tl ?n "(g, [])"] by simp
  have p1: "playerX (fst ?st1) = playerX g" by (simp add: carLoop_frame)
  have s1: "score g \<le> score (fst ?st1)"
    using carLoop_scores [of "(g, [])" dt ?pz ?tl ?n ps1] by simp
  have col: "carCollides (playerX (fst ?st1))
               (wrapDist ?tl (advanceZ dt ?tl (carStore (fst ?st1) a) - ?pz)) (carStore (fst ?st1) a)"
    unfolding c1 p1 carCollides_def using d px by (simp add: overlap_same)
  from carStep_crash [OF col, of ?n i] have k2:
    "isGameOver (fst ?st2)" "speed (fst ?st2) = 0" "\<lfloor>score (fst ?st1)\<rfloor> \<le> highScore (fst ?st2)"
    by blast+
  note r = carLoop_scores [of ?st2 dt ?pz ?tl ?n ps2, folded L]
  note w = carLoop_scores [of "(g, [])" dt ?pz ?tl ?n ?ps]
  have f1: "\<lfloor>score g\<rfloor> \<le> \<lfloor>score (fst ?st1)\<rfloor>" using s1 by (rule floor_mono)
  have go: "isGameOver (fst ?L)" and v0: "speed (fst ?L) = 0" using r k2 by blast+
  have lo: "max (highScore g) \<lfloor>score g\<rfloor> \<le> highScore (fst ?L)"
    using r k2(3) f1 w by simp
  have hi: "highScore (fst ?L) \<le> max (highScore g) \<lfloor>score (fst ?L)\<rfloor>"
    using w by simp
  show ?thesis
    using u go v0 lo hi unfolding g' by (simp add: scoreTick_def)
qed

lemma update_traffic_step:
  assumes dt: "0 \<le> dt" and ok: "carsOK g" and so: "singleOwner (segments g)"
      and ng: "\<not> isGameOver g"
      and ps: "findSegment (segments g) (position g + CAMERA_DEPTH * SEGMENT_LENGTH) = Some ps"
  shows "\<exists>g2 g'. updateTraffic dt (updatePlayer dt cmd ps g) = Inr g2 \<and> update dt cmd g = Inr g' \<and>
           (g' = g2 \<or> g' = crash g2)"
proof -
  let ?g1 = "updatePlayer dt cmd ps g"
  have ok1: "carsOK ?g1" using ok unfolding carsOK_def by simp
  have so1: "singleOwner (segments ?g1)" using so by simp
  from updateTraffic_ok [OF dt ok1 so1] obtain g2 where
    g2: "updateTraffic dt ?g1 = Inr g2" and l: "length (segments g2) = length (segments ?g1)" by blast
  have n2: "0 < length (segments g2)" using l ok unfolding carsOK_def by simp
  have up: "update dt cmd g = checkSpriteCollisions g2"
    using ng by (simp add: update_def ps g2)
  from checkSpriteCollisions_cases [OF n2] show ?thesis
    using g2 up by auto
qed

subsection \<open>Lane splitting\<close>

text \<open>
  C5, amended. With the player at lateral offset 0 and every car at lateral offset
  -0.65 or 0.65, at whatever depth and so also within 200 units, the player's hitbox of
  width 0.15 overlaps no car's hitbox of width 0.45, and the traffic update returns
  without a crash: the game-over flag, the speed and the best score are as before.
  (Hitboxes of equal width would not overlap either.)
\<close>

theorem lane_splitting:
  assumes "0 \<le> dt" and "carsOK g" and "singleOwner (segments g)" and "playerX g = Num 0"
      and "\<forall>a \<in> carSet (segments g).
             car.offset (carStore g a) = - (65 / 100) \<or> car.offset (carStore g a) = 65 / 100"
  shows "\<not> overlap (Num 0) (15 / 100) (- (65 / 100)) (45 / 100) \<and>
         \<not> overlap (Num 0) (15 / 100) (65 / 100) (45 / 100) \<and>
         (\<exists>g'. updateTraffic dt g = Inr g' \<and> isGameOver g' = isGameOver g \<and>
                speed g' = speed g \<and> highScore g' = highScore g)"
proof -
  have o: "\<not> overlap (Num 0) (15 / 100) (- (65 / 100)) (45 / 100)"
          "\<not> overlap (Num 0) (15 / 100) (65 / 100) (45 / 100)"
    by (simp_all add: overlap_def Let_def)
  have "\<not> overlap (playerX g) (15 / 100) (car.offset (carStore g a)) (45 / 100)"
    if "a \<in> carSet (segments g)" for a
  proof -
    from that assms(5) have "car.offset (carStore g a) = - (65 / 100) \<or> car.offset (carStore g a) = 65 / 100"
      by blast
    then show ?thesis
    proof
      assume e: "car.offset (carStore g a) = - (65 / 100)"
      show ?thesis unfolding assms(4) e by (rule o(1))
    next
      assume e: "car.offset (carStore g a) = 65 / 100"
      show ?thesis unfolding assms(4) e by (rule o(2))
    qed
  qed
  then have "\<forall>a \<in> carSet (segments g).
          \<not> overlap (playerX g) (15 / 100) (car.offset (carStore g a)) (45 / 100)"
    by blast
  from updateTraffic_no_hit [OF assms(1,2,3) this] o show ?thesis by blast
qed

lemma twoCars_store:
  "car.offset (rstore twoCars 5) = - (65 / 100)" "car.offset (rstore twoCars 6) = 65 / 100"
  "z (rstore twoCars 5) = 1000" "z (rstore twoCars 6) = 1200"
  "car.speed (rstore twoCars 5) = 3200" "car.speed (rstore twoCars 6) = 3200"
  "\<not> justPassed (rstore twoCars 6)"
  by (simp_all add: twoCars_def addCar_def SEGMENT_LENGTH_def)

lemma length_twoCars [simp]: "length (rsegments twoCars) = TOTAL_SEGMENTS"
  by (simp add: twoCars_def addCar_segments)

theorem lane_splitting_witness:
  "(0::real) \<le> 1 / 64 \<and> carsOK (roadGame twoCars 150 (Num 0) 6000) \<and>
   singleOwner (segments (roadGame twoCars 150 (Num 0) 6000)) \<and>
   playerX (roadGame twoCars 150 (Num 0) 6000) = Num 0 \<and>
   carSet (segments (roadGame twoCars 150 (Num 0) 6000)) = {5, 6} \<and>
   car.offset (carStore (roadGame twoCars 150 (Num 0) 6000) 5) = - (65 / 100) \<and>
   car.offset (carStore (roadGame twoCars 150 (Num 0) 6000) 6) = 65 / 100 \<and>
   wrapDist (real TOTAL_SEGMENTS * SEGMENT_LENGTH)
     (advanceZ (1 / 64) (real TOTAL_SEGMENTS * SEGMENT_LENGTH) (carStore (roadGame twoCars 150 (Num 0) 6000) 5)
        - (position (roadGame twoCars 150 (Num 0) 6000) + CAMERA_HEIGHT)) = - 100 \<and>
   wrapDist (real TOTAL_SEGMENTS * SEGMENT_LENGTH)
     (advanceZ (1 / 64) (real TOTAL_SEGMENTS * SEGMENT_LENGTH) (carStore (roadGame twoCars 150 (Num 0) 6000) 6)
        - (position (roadGame twoCars 150 (Num 0) 6000) + CAMERA_HEIGHT)) = 100 \<and>
   (\<exists>g'. updateTraffic (1 / 64) (roadGame twoCars 150 (Num 0) 6000) = Inr g' \<and>
          \<not> isGameOver g' \<and> speed g' = 6000 \<and> highScore g' = 0)"
proof -
  let ?g = "roadGame twoCars 150 (Num 0) 6000"
  have inv: "roadInv ?g"
    by (rule roadGame_inv [OF buildInv_twoCars]) (simp_all add: CONFIG)
  have ok: "carsOK ?g" and so: "singleOwner (segments ?g)" using inv unfolding roadInv_def by auto
  have cs: "carSet (segments ?g) = {5, 6}" by (simp add: carSet_twoCars)
  have off: "\<forall>a \<in> carSet (segments ?g).
             car.offset (carStore ?g a) = - (65 / 100) \<or> car.offset (carStore ?g a) = 65 / 100"
    unfolding cs by (simp add: twoCars_store)
  have d: "wrapDist (real TOTAL_SEGMENTS * SEGMENT_LENGTH)
     (advanceZ (1 / 64) (real TOTAL_SEGMENTS * SEGMENT_LENGTH) (carStore ?g 5)
        - (position ?g + CAMERA_HEIGHT)) = - 100"
    "wrapDist (real TOTAL_SEGMENTS * SEGMENT_LENGTH)
     (advanceZ (1 / 64) (real TOTAL_SEGMENTS * SEGMENT_LENGTH) (carStore ?g 6)
        - (position ?g + CAMERA_HEIGHT)) = 100"
    by (simp_all add: wrapDist_def advanceZ_def Let_def twoCars_store CONFIG)
  from lane_splitting [OF _ ok so _ off, of "1 / 64"] ok so cs d show ?thesis
    by (simp add: twoCars_store)
qed

text \<open>
  C5, as stated, ends with "even though equal-width hitboxes would overlap". They would
  not: with both widths 0.45 (or both 0.15) the intervals around 0 and around 0.65 or
  -0.65 are disjoint.
\<close>

theorem equal_width_counterexample:
  "\<not> overlap (Num 0) (45 / 100) (65 / 100) (45 / 100) \<and>
   \<not> overlap (Num 0) (45 / 100) (- (65 / 100)) (45 / 100) \<and>
   \<not> overlap (Num 0) (15 / 100) (65 / 100) (15 / 100) \<and>
   \<not> overlap (Num 0) (15 / 100) (- (65 / 100)) (15 / 100)"
  by (simp add: overlap_def Let_def)

subsection \<open>Collision with a car\<close>

text \<open>
  C6. In a step that is not skipped, let the lateral offset of the player, as the step
  has just updated it, equal the lateral offset of a car, and let the signed distance on
  the circular track between the car's advanced depth and the player's depth
  (\<open>position + CAMERA_HEIGHT\<close>, as \<open>updateTraffic\<close> takes it) be less than 200 in
  absolute value. Then the step returns with the game over and the speed 0, and the best
  score is at least the score and the previous best score, and at most the larger of the
  previous best score and the score at the end of the step: it is updated if the score
  exceeded it.
\<close>

theorem crash_on_equal_offset:
  assumes "0 \<le> dt" and "carsOK g" and "singleOwner (segments g)" and "\<not> isGameOver g"
      and "findSegment (segments g) (position g + CAMERA_DEPTH * SEGMENT_LENGTH) = Some playerSegment"
      and "a \<in> carSet (segments g)"
      and "playerX (updatePlayer dt cmd playerSegment g) = Num (car.offset (carStore g a))"
      and "\<bar>wrapDist (real (length (segments g)) * SEGMENT_LENGTH)
              (advanceZ dt (real (length (segments g)) * SEGMENT_LENGTH) (carStore g a)
                 - (position (updatePlayer dt cmd playerSegment g) + CAMERA_HEIGHT))\<bar> < 200"
  shows "\<exists>g'. update dt cmd g = Inr g' \<and> isGameOver g' \<and> speed g' = 0 \<and>
           max (highScore g) \<lfloor>score g\<rfloor> \<le> highScore g' \<and>
           highScore g' \<le> max (highScore g) \<lfloor>score g'\<rfloor>"
proof -
  let ?g1 = "updatePlayer dt cmd playerSegment g"
  from update_traffic_step [OF assms(1-5), of cmd] obtain g2 g' where
    t: "updateTraffic dt ?g1 = Inr g2" and u: "update dt cmd g = Inr g'"
    and r: "g' = g2 \<or> g' = crash g2" by blast
  have ok1: "carsOK ?g1" using assms(2) unfolding carsOK_def by simp
  have so1: "singleOwner (segments ?g1)" using assms(3) by simp
  have a1: "a \<in> carSet (segments ?g1)" using assms(6) by simp
  have px1: "playerX ?g1 = Num (car.offset (carStore ?g1 a))" using assms(7) by simp
  have d1: "\<bar>wrapDist (real (length (segments ?g1)) * SEGMENT_LENGTH)
                (advanceZ dt (real (length (segments ?g1)) * SEGMENT_LENGTH) (carStore ?g1 a)
                   - (position ?g1 + CAMERA_HEIGHT))\<bar> < 200"
    using assms(8) by simp
  from updateTraffic_crash [OF assms(1) ok1 so1 a1 px1 d1] t have
    k: "isGameOver g2" "speed g2 = 0" "max (highScore g) \<lfloor>score g\<rfloor> \<le> highScore g2"
       "highScore g2 \<le> max (highScore g) \<lfloor>score g2\<rfloor>"
    by simp_all
  from r show ?thesis
  proof
    assume "g' = g2"
    then show ?thesis using u k by simp
  next
    assume c: "g' = crash g2"
    have "max (highScore g) \<lfloor>score g\<rfloor> \<le> highScore (crash g2)"
      using k(3) crash_highScore [of g2] by linarith
    moreover have "highScore (crash g2) \<le> max (highScore g) \<lfloor>score g2\<rfloor>"
      using k(4) crash_highScore [of g2] by linarith
    ultimately show ?thesis using u unfolding c by simp
  qed
qed

lemma findSegment_nth:
  assumes "0 \<le> zz" "zz < real (length segs) * SEGMENT_LENGTH"
  shows "findSegment segs zz = Some (segs ! nat \<lfloor>zz / SEGMENT_LENGTH\<rfloor>)"
proof -
  have a: "0 \<le> zz / SEGMENT_LENGTH" "zz / SEGMENT_LENGTH < real (length segs)"
    using assms by (simp_all add: SEGMENT_LENGTH_def)
  then have f: "0 \<le> \<lfloor>zz / SEGMENT_LENGTH\<rfloor>" "\<lfloor>zz / SEGMENT_LENGTH\<rfloor> < int (length segs)"
    by (simp_all add: floor_less_iff)
  then have "js_rem \<lfloor>zz / SEGMENT_LENGTH\<rfloor> (int (length segs)) = \<lfloor>zz / SEGMENT_LENGTH\<rfloor>"
    by (simp add: js_rem_small)
  then show ?thesis
    using f by (simp add: findSegment_def lookup_def)
qed

lemma oneCar_store:
  "car.offset (rstore oneCar 5) = 0" "z (rstore oneCar 5) = 1000" "car.speed (rstore oneCar 5) = 3200"
  by (simp_all add: oneCar_def addCar_def SEGMENT_LENGTH_def)

lemma length_oneCar [simp]: "length (rsegments oneCar) = TOTAL_SEGMENTS"
  by (simp add: oneCar_def addCar_segments)

lemma crashScene_fields [simp]:
  "segments crashScene = rsegments oneCar" "carStore crashScene = rstore oneCar"
  "position crashScene = 50" "playerX crashScene = Num 0" "speed crashScene = 12000"
  "\<not> isGameOver crashScene" "score crashScene = 12345 / 10" "highScore crashScene = 1000"
  by (simp_all add: crashScene_def)

lemma crashScene_segment:
  "findSegment (segments crashScene) (position crashScene + CAMERA_DEPTH * SEGMENT_LENGTH)
     = Some (newSegment 1)"
proof -
  have "findSegment (rsegments oneCar) (50 + CAMERA_DEPTH * SEGMENT_LENGTH)
          = Some (rsegments oneCar ! nat \<lfloor>(50 + CAMERA_DEPTH * SEGMENT_LENGTH) / SEGMENT_LENGTH\<rfloor>)"
    by (rule findSegment_nth) (simp_all add: CONFIG)
  moreover have "nat \<lfloor>(50 + CAMERA_DEPTH * SEGMENT_LENGTH) / SEGMENT_LENGTH\<rfloor> = 1"
    by (simp add: CONFIG)
  moreover have "rsegments oneCar ! 1 = newSegment 1"
    by (simp add: oneCar_def addCar_segments emptyRoad_def TOTAL_SEGMENTS_def)
  ultimately show ?thesis by simp
qed

theorem crash_on_equal_offset_witness:
  "(0::real) \<le> 1 / 64 \<and> carsOK crashScene \<and> singleOwner (segments crashScene) \<and>
   \<not> isGameOver crashScene \<and>
   findSegment (segments crashScene) (position crashScene + CAMERA_DEPTH * SEGMENT_LENGTH)
     = Some (newSegment 1) \<and>
   5 \<in> carSet (segments crashScene) \<and>
   playerX (updatePlayer (1 / 64) \<lparr>steer = Num 0, accel = Num 1, brake = Num 0\<rparr> (newSegment 1) crashScene)
     = Num (car.offset (carStore crashScene 5)) \<and>
   wrapDist (real (length (segments crashScene)) * SEGMENT_LENGTH)
     (advanceZ (1 / 64) (real (length (segments crashScene)) * SEGMENT_LENGTH) (carStore crashScene 5)
        - (position (updatePlayer (1 / 64) \<lparr>steer = Num 0, accel = Num 1, brake = Num 0\<rparr>
                       (newSegment 1) crashScene) + CAMERA_HEIGHT)) = - (375 / 2) \<and>
   (\<exists>g'. update (1 / 64) \<lparr>steer = Num 0, accel = Num 1, brake = Num 0\<rparr> crashScene = Inr g' \<and>
          isGameOver g' \<and> speed g' = 0 \<and> 1234 \<le> highScore g' \<and>
          highScore g' \<le> max 1000 \<lfloor>score g'\<rfloor>)"
proof -
  let ?cmd = "\<lparr>steer = Num 0, accel = Num 1, brake = Num 0\<rparr>"
  have inv: "roadInv (roadGame oneCar 50 (Num 0) 12000)"
    by (rule roadGame_inv [OF buildInv_oneCar]) (simp_all add: CONFIG)
  have ok: "carsOK crashScene" and so: "singleOwner (segments crashScene)"
    using inv unfolding roadInv_def carsOK_def by simp_all
  have a: "5 \<in> carSet (segments crashScene)" by (simp add: carSet_oneCar)
  have px: "playerX (updatePlayer (1 / 64) ?cmd (newSegment 1) crashScene)
              = Num (car.offset (carStore crashScene 5))"
    by (simp add: updatePlayer_playerX Let_def oneCar_store)
  have d: "wrapDist (real (length (segments crashScene)) * SEGMENT_LENGTH)
     (advanceZ (1 / 64) (real (length (segments crashScene)) * SEGMENT_LENGTH) (carStore crashScene 5)
        - (position (updatePlayer (1 / 64) ?cmd (newSegment 1) crashScene) + CAMERA_HEIGHT)) = - (375 / 2)"
    by (simp add: updatePlayer_def throttle_def wrapDist_def advanceZ_def Let_def oneCar_store CONFIG)
  have d': "\<bar>wrapDist (real (length (segments crashScene)) * SEGMENT_LENGTH)
     (advanceZ (1 / 64) (real (length (segments crashScene)) * SEGMENT_LENGTH) (carStore crashScene 5)
        - (position (updatePlayer (1 / 64) ?cmd (newSegment 1) crashScene) + CAMERA_HEIGHT))\<bar> < 200"
    unfolding d by simp
  from crash_on_equal_offset [OF _ ok so crashScene_fields(6) crashScene_segment a px d']
    ok so crashScene_segment a px d
  show ?thesis by simp
qed

subsection \<open>The close-call bonus\<close>

lemma closeCallFires_z [simp]: "closeCallFires px d (c\<lparr>z := zz\<rparr>) = closeCallFires px d c"
  by (simp add: closeCallFires_def)

lemma passedFlag_z [simp]: "passedFlag px d (c\<lparr>z := zz\<rparr>) = passedFlag px d c"
  by (simp add: passedFlag_def)

lemma carStep_justPassed_other:
  "b \<noteq> a \<Longrightarrow> justPassed (carStore (fst (carStep dt pz tlen n i a st)) b) = justPassed (carStore (fst st) b)"
  by (simp add: carStep_store_other)

lemma carLoop_flag:
  assumes "distinct (map snd ps)" and "b \<in> snd ` set ps"
  shows "justPassed (carStore (fst (carLoop dt pz tlen n ps st)) b) =
           passedFlag (playerX (fst st)) (wrapDist tlen (advanceZ dt tlen (carStore (fst st) b) - pz))
             (carStore (fst st) b)"
  using assms
proof (induction ps arbitrary: st)
  case Nil
  then show ?case by simp
next
  case (Cons p ps)
  show ?case
  proof (cases "b = snd p")
    case True
    then have "b \<notin> snd ` set ps" using Cons.prems(1) by auto
    then show ?thesis
      using True by (simp add: carLoop_store_other carStep_flag)
  next
    case False
    then have "b \<in> snd ` set ps" using Cons.prems(2) by auto
    moreover have "distinct (map snd ps)" using Cons.prems(1) by simp
    ultimately show ?thesis
      using Cons.IH [of "carStep dt pz tlen n (fst p) (snd p) st"] False
      by (simp add: carStep_store_other)
  qed
qed

lemma carLoop_score:
  assumes "distinct (map snd ps)"
  shows "score (fst (carLoop dt pz tlen n ps st)) =
           score (fst st) + 500 * real (length (filter
             (\<lambda>p. closeCallFires (playerX (fst st))
                     (wrapDist tlen (advanceZ dt tlen (carStore (fst st) (snd p)) - pz))
                     (carStore (fst st) (snd p))) ps))"
  using assms
proof (induction ps arbitrary: st)
  case Nil
  show ?case by simp
next
  case (Cons p ps)
  let ?st1 = "carStep dt pz tlen n (fst p) (snd p) st"
  let ?F = "\<lambda>s q. closeCallFires (playerX (fst s))
                     (wrapDist tlen (advanceZ dt tlen (carStore (fst s) (snd q)) - pz))
                     (carStore (fst s) (snd q))"
  have d: "distinct (map snd ps)" and notin: "snd p \<notin> snd ` set ps"
    using Cons.prems by auto
  have same: "carStore (fst ?st1) (snd q) = carStore (fst st) (snd q)" if "q \<in> set ps" for q
  proof -
    from that have "snd q \<noteq> snd p" using notin by (metis imageI)
    then show ?thesis by (rule carStep_store_other)
  qed
  have fl: "filter (?F ?st1) ps = filter (?F st) ps"
    by (rule filter_cong) (simp_all add: same)
  have "score (fst (carLoop dt pz tlen n (p # ps) st))
          = score (fst ?st1) + 500 * real (length (filter (?F ?st1) ps))"
    using Cons.IH [OF d, of ?st1] by simp
  also have "\<dots> = score (fst st) + (if ?F st p then 500 else 0) + 500 * real (length (filter (?F st) ps))"
    unfolding fl by (simp add: carStep_score)
  also have "\<dots> = score (fst st) + 500 * real (length (filter (?F st) (p # ps)))"
    by simp
  finally show ?case .
qed

lemma length_filter_snd:
  assumes "distinct (map snd ps)"
  shows "length (filter (\<lambda>p. P (snd p)) ps) = card {b \<in> snd ` set ps. P b}"
proof -
  have "filter P (map snd ps) = map snd (filter (\<lambda>p. P (snd p)) ps)"
    by (simp add: filter_map comp_def)
  then have l: "length (filter (\<lambda>p. P (snd p)) ps) = length (filter P (map snd ps))"
    by simp
  have "distinct (filter P (map snd ps))" using assms by (rule distinct_filter)
  then have c: "card (set (filter P (map snd ps))) = length (filter P (map snd ps))"
    by (rule distinct_card)
  have "set (filter P (map snd ps)) = {b \<in> snd ` set ps. P b}" by auto
  then show ?thesis using l c by simp
qed

lemma scoreTick_score:
  assumes "0 \<le> dt" "dt \<le> 1" "speed g \<le> MAX_SPEED"
  shows "0 \<le> (if speed g > 0 then speed g / 1000 * dt * 10 else 0)"
    and "(if speed g > 0 then speed g / 1000 * dt * 10 else 0) \<le> 120"
    and "score (scoreTick dt g) = score g + (if speed g > 0 then speed g / 1000 * dt * 10 else 0)"
proof -
  show "score (scoreTick dt g) = score g + (if speed g > 0 then speed g / 1000 * dt * 10 else 0)"
    by (simp add: scoreTick_def)
  show "0 \<le> (if speed g > 0 then speed g / 1000 * dt * 10 else 0)"
    using assms by simp
  show "(if speed g > 0 then speed g / 1000 * dt * 10 else 0) \<le> 120"
  proof (cases "speed g > 0")
    case True
    have "speed g * dt \<le> 12000 * 1"
      using assms True by (intro mult_mono) (simp_all add: MAX_SPEED_def)
    then show ?thesis using True by (simp add: mult.commute)
  next
    case False
    then show ?thesis by simp
  qed
qed

lemma closeCallFires_closeCall:
  assumes "\<not> isGameOver g" and "car.offset (carStore g' b) = car.offset (carStore g b)"
  shows "closeCallFires (playerX g') (relDepth g' b) (carStore g b) = closeCall g g' b"
  using assms
  by (cases "playerX g'") (auto simp: closeCallFires_def closeCall_def inBand_def Let_def)

lemma update_close_call:
  assumes dt: "0 \<le> dt" "dt \<le> 1" and inv: "roadInv g" and ng: "\<not> isGameOver g"
  shows "\<exists>g'. update dt cmd g = Inr g' \<and>
           (\<forall>b \<in> carSet (segments g).
              (justPassed (carStore g' b) \<longleftrightarrow>
                 \<bar>relDepth g' b\<bar> \<le> 1000 \<and> (justPassed (carStore g b) \<or> closeCall g g' b))) \<and>
           (\<exists>t. 0 \<le> t \<and> t \<le> 120 \<and>
              (\<not> isGameOver g' \<longrightarrow> t = (if speed g' > 0 then speed g' / 1000 * dt * 10 else 0)) \<and>
              score g' = score g + 500 * real (card {b \<in> carSet (segments g). closeCall g g' b}) + t)"
proof -
  have n: "length (segments g) = TOTAL_SEGMENTS" and pos: "0 \<le> position g"
    and ok: "carsOK g" and so: "singleOwner (segments g)"
    using inv unfolding roadInv_def by auto
  have n0: "0 < length (segments g)" using n by (simp add: TOTAL_SEGMENTS_def)
  have "0 \<le> position g + CAMERA_DEPTH * SEGMENT_LENGTH"
    using pos by (simp add: CAMERA_DEPTH_def SEGMENT_LENGTH_def)
  from findSegment_Some [OF this n0] obtain ps where
    ps: "findSegment (segments g) (position g + CAMERA_DEPTH * SEGMENT_LENGTH) = Some ps" by blast
  define g1 where "g1 = updatePlayer dt cmd ps g"
  have seg1: "segments g1 = segments g" and st1: "carStore g1 = carStore g"
    and sc1: "score g1 = score g"
    unfolding g1_def by simp_all
  have ok1: "carsOK g1" using ok unfolding carsOK_def seg1 st1 .
  have so1: "singleOwner (segments g1)" using so unfolding seg1 .
  let ?pz = "position g1 + CAMERA_HEIGHT"
  let ?tl = "real (length (segments g1)) * SEGMENT_LENGTH"
  let ?prs = "carPairs (segments g1)"
  let ?L = "fst (carLoop dt ?pz ?tl (length (segments g1)) ?prs (g1, []))"
  from updateTraffic_ok [OF dt(1) ok1 so1] obtain g2 where
    g2: "updateTraffic dt g1 = Inr g2" and l2: "length (segments g2) = length (segments g1)"
    and p2: "position g2 = position g1" and x2: "playerX g2 = playerX g1"
    and cars2: "\<forall>a \<in> carSet (segments g1).
              z (carStore g2 a) = advanceZ dt ?tl (carStore g1 a) \<and>
              car.offset (carStore g2 a) = car.offset (carStore g1 a)"
    by blast
  from updateTraffic_loop [OF g2] obtain segs where
    e2: "g2 = scoreTick dt (?L\<lparr>segments := segs\<rparr>)" by blast
  have n2: "0 < length (segments g2)" using l2 seg1 n0 by simp
  have up: "update dt cmd g = checkSpriteCollisions g2"
    using ng by (simp add: update_def ps g1_def [symmetric] g2)
  obtain g' where g': "checkSpriteCollisions g2 = Inr g'" and r: "g' = g2 \<or> g' = crash g2"
    using checkSpriteCollisions_cases [OF n2] by auto
  have f': "carStore g' = carStore g2" "position g' = position g2" "playerX g' = playerX g2"
    "segments g' = segments g2" "score g' = score g2"
    using r by auto
  have d: "distinct (map snd ?prs)" by (rule distinct_carPairs [OF so1])
  have sp: "snd ` set ?prs = carSet (segments g)" by (simp add: snd_set_carPairs seg1)
  have rd: "relDepth g' b = wrapDist ?tl (advanceZ dt ?tl (carStore g1 b) - ?pz)"
    if "b \<in> carSet (segments g)" for b
    using cars2 that by (simp add: relDepth_def f' l2 p2 seg1)
  have rd': "wrapDist ?tl (advanceZ dt ?tl (carStore g b) - ?pz) = relDepth g' b"
    if "b \<in> carSet (segments g)" for b
    using rd [OF that] by (simp add: st1)
  have off: "car.offset (carStore g' b) = car.offset (carStore g b)"
    if "b \<in> carSet (segments g)" for b
    using cars2 that by (simp add: f' seg1 st1)
  have fires: "closeCallFires (playerX g1) (wrapDist ?tl (advanceZ dt ?tl (carStore g1 b) - ?pz)) (carStore g1 b)
                 = closeCall g g' b"
    if "b \<in> carSet (segments g)" for b
    using closeCallFires_closeCall [OF ng off [OF that]] rd [OF that]
    by (simp add: f' x2 st1)
  have flag: "justPassed (carStore g' b) \<longleftrightarrow>
                 \<bar>relDepth g' b\<bar> \<le> 1000 \<and> (justPassed (carStore g b) \<or> closeCall g g' b)"
    if b: "b \<in> carSet (segments g)" for b
  proof -
    have "justPassed (carStore g' b) =
            passedFlag (playerX g1) (wrapDist ?tl (advanceZ dt ?tl (carStore g1 b) - ?pz)) (carStore g1 b)"
      unfolding f' e2 using carLoop_flag [OF d, of b dt ?pz ?tl "length (segments g1)" "(g1, [])"] b sp
      by simp
    then have "justPassed (carStore g' b) =
            (if \<bar>relDepth g' b\<bar> > 1000 then False
             else if closeCall g g' b then True else justPassed (carStore g b))"
      unfolding passedFlag_def Let_def fires [OF b] unfolding st1 unfolding rd' [OF b] .
    then show ?thesis by auto
  qed
  have cnt: "length (filter (\<lambda>p. closeCallFires (playerX g1)
                     (wrapDist ?tl (advanceZ dt ?tl (carStore g1 (snd p)) - ?pz)) (carStore g1 (snd p))) ?prs)
             = card {b \<in> carSet (segments g). closeCall g g' b}"
  proof -
    have "{b \<in> snd ` set ?prs. closeCallFires (playerX g1)
                     (wrapDist ?tl (advanceZ dt ?tl (carStore g1 b) - ?pz)) (carStore g1 b)}
          = {b \<in> carSet (segments g). closeCall g g' b}"
      unfolding sp using fires by blast
    then show ?thesis
      using length_filter_snd [OF d, of "\<lambda>b. closeCallFires (playerX g1)
                     (wrapDist ?tl (advanceZ dt ?tl (carStore g1 b) - ?pz)) (carStore g1 b)"]
      by simp
  qed
  have scL: "score ?L = score g + 500 * real (card {b \<in> carSet (segments g). closeCall g g' b})"
    using carLoop_score [OF d, of dt ?pz ?tl "length (segments g1)" "(g1, [])"]
    by (simp add: sc1 cnt)
  have vL: "speed ?L \<le> MAX_SPEED"
  proof -
    have "speed g1 \<le> MAX_SPEED" unfolding g1_def by (rule updatePlayer_speed_upper [OF dt(1)])
    then show ?thesis
      using carLoop_speed [of dt ?pz ?tl "length (segments g1)" ?prs "(g1, [])"]
      by (auto simp: MAX_SPEED_def)
  qed
  define t where "t = (if speed ?L > 0 then speed ?L / 1000 * dt * 10 else 0)"
  have t: "0 \<le> t" "t \<le> 120" "score g2 = score ?L + t"
    using scoreTick_score [OF dt, of "?L\<lparr>segments := segs\<rparr>"] vL
    unfolding e2 t_def by (simp_all cong: if_cong)
  have v2: "speed g2 = speed ?L" unfolding e2 by simp
  have tt: "t = (if speed g' > 0 then speed g' / 1000 * dt * 10 else 0)" if "\<not> isGameOver g'"
  proof -
    from that r have "g' = g2" by auto
    then show ?thesis unfolding t_def using v2 by simp
  qed
  have "score g' = score g + 500 * real (card {b \<in> carSet (segments g). closeCall g g' b}) + t"
    using t(3) scL f'(5) by simp
  then show ?thesis
    using up g' flag t(1,2) tt by auto
qed

lemma sprites_update: "map sprites (xs[i := (xs ! i)\<lparr>cars := cs\<rparr>]) = map sprites xs"
proof (cases "i < length xs")
  case True
  then show ?thesis by (simp add: map_update list_update_same_conv)
next
  case False
  then have "length xs \<le> i" by simp
  then have "xs[i := (xs ! i)\<lparr>cars := cs\<rparr>] = xs" by (rule list_update_beyond)
  then show ?thesis by (rule arg_cong)
qed

lemma applyMoves_sprites:
  "applyMoves ms segs = Inr segs' \<Longrightarrow> map sprites segs' = map sprites segs"
proof (induction ms segs arbitrary: segs' rule: applyMoves.induct)
  case (1 segs)
  then show ?case by simp
next
  case (2 a "from" to ms segs)
  show ?case
  proof (cases "a \<in> set (cars (segs ! from))")
    case False
    then show ?thesis using 2 by simp
  next
    case True
    let ?segs1 = "segs[from := (segs ! from)\<lparr>cars := remove1 a (cars (segs ! from))\<rparr>]"
    have m1: "map sprites ?segs1 = map sprites segs"
      by (rule sprites_update)
    from "2.prems" True obtain toSeg where
      l: "lookup ?segs1 to = Some toSeg"
      and r: "applyMoves ms (?segs1[nat to := toSeg\<lparr>cars := cars toSeg @ [a]\<rparr>]) = Inr segs'"
      by (auto simp: Let_def split: option.splits)
    have ts: "toSeg = ?segs1 ! nat to" using l by (auto simp: lookup_def split: if_splits)
    have m2: "map sprites (?segs1[nat to := toSeg\<lparr>cars := cars toSeg @ [a]\<rparr>]) = map sprites ?segs1"
      unfolding ts by (rule sprites_update)
    from "2.IH"(1) [OF True refl l r] show ?thesis using m1 m2 by simp
  qed
qed

lemma updateTraffic_sprites:
  assumes "updateTraffic dt g = Inr g'"
  shows "map sprites (segments g') = map sprites (segments g)"
proof -
  let ?st = "trafficLoop dt (position g + CAMERA_HEIGHT) (real (length (segments g)) * SEGMENT_LENGTH) g"
  obtain segs where a: "applyMoves (snd ?st) (segments (fst ?st)) = Inr segs"
    using assms by (auto simp: updateTraffic_def Let_def split: sum.splits)
  have g': "g' = scoreTick dt ((fst ?st)\<lparr>segments := segs\<rparr>)"
    using assms a by (simp add: updateTraffic_def Let_def scoreTick_def)
  have "segments (fst ?st) = segments g" unfolding trafficLoop_pairs by (simp add: carLoop_frame)
  then show ?thesis using applyMoves_sprites [OF a] unfolding g' by simp
qed

lemma no_sprites_map: "(\<forall>s \<in> set segs. sprites s = []) \<longleftrightarrow> (\<forall>x \<in> set (map sprites segs). x = [])"
  by auto

lemma updatePlayer_straight:
  assumes "steer cmd = Num 0" and "playerX g = Num x" and "- 1 \<le> x" and "x \<le> 1"
  shows "playerX (updatePlayer dt cmd ps g) = Num x"
    and "speed (updatePlayer dt cmd ps g) = throttle dt cmd (speed g)"
  using assms by (simp_all add: updatePlayer_def Let_def)

lemma update_no_crash:
  assumes dt: "0 \<le> dt" "dt \<le> 1" and inv: "roadInv g" and ng: "\<not> isGameOver g"
      and sp: "\<forall>s \<in> set (segments g). sprites s = []"
      and st: "steer cmd = Num 0" and px: "playerX g = Num x" "- 1 \<le> x" "x \<le> 1"
      and nh: "\<forall>a \<in> carSet (segments g).
                 \<not> overlap (Num x) (15 / 100) (car.offset (carStore g a)) (45 / 100)"
  shows "\<exists>g'. update dt cmd g = Inr g' \<and> roadInv g' \<and> \<not> isGameOver g' \<and>
           (\<forall>s \<in> set (segments g'). sprites s = []) \<and>
           carSet (segments g') = carSet (segments g) \<and>
           playerX g' = Num x \<and> speed g' = throttle dt cmd (speed g) \<and>
           position g' =
             (let p1 = position g + throttle dt cmd (speed g) * dt;
                  tl = real TOTAL_SEGMENTS * SEGMENT_LENGTH;
                  p2 = (if p1 \<ge> tl then p1 - tl else p1)
              in if p2 < 0 then p2 + tl else p2) \<and>
           (\<forall>a \<in> carSet (segments g).
              z (carStore g' a) = advanceZ dt (real TOTAL_SEGMENTS * SEGMENT_LENGTH) (carStore g a) \<and>
              car.speed (carStore g' a) = car.speed (carStore g a) \<and>
              car.offset (carStore g' a) = car.offset (carStore g a))"
proof -
  have n: "length (segments g) = TOTAL_SEGMENTS" and pos: "0 \<le> position g"
    and ok: "carsOK g" and so: "singleOwner (segments g)"
    using inv unfolding roadInv_def by auto
  have n0: "0 < length (segments g)" using n by (simp add: TOTAL_SEGMENTS_def)
  have "0 \<le> position g + CAMERA_DEPTH * SEGMENT_LENGTH"
    using pos by (simp add: CAMERA_DEPTH_def SEGMENT_LENGTH_def)
  from findSegment_Some [OF this n0] obtain ps where
    ps: "findSegment (segments g) (position g + CAMERA_DEPTH * SEGMENT_LENGTH) = Some ps" by blast
  define g1 where "g1 = updatePlayer dt cmd ps g"
  have seg1: "segments g1 = segments g" and st1: "carStore g1 = carStore g"
    and go1: "\<not> isGameOver g1"
    unfolding g1_def using ng by simp_all
  have x1: "playerX g1 = Num x" and v1: "speed g1 = throttle dt cmd (speed g)"
    unfolding g1_def by (rule updatePlayer_straight [OF st px])+
  have p1: "position g1 =
             (let p1 = position g + throttle dt cmd (speed g) * dt;
                  tl = real TOTAL_SEGMENTS * SEGMENT_LENGTH;
                  p2 = (if p1 \<ge> tl then p1 - tl else p1)
              in if p2 < 0 then p2 + tl else p2)"
    unfolding g1_def updatePlayer_position
    unfolding updatePlayer_straight(2) [OF st px] n ..
  have ok1: "carsOK g1" using ok unfolding carsOK_def seg1 st1 .
  have so1: "singleOwner (segments g1)" using so unfolding seg1 .
  have nh1: "\<forall>a \<in> carSet (segments g1).
                 \<not> overlap (playerX g1) (15 / 100) (car.offset (carStore g1 a)) (45 / 100)"
    using nh unfolding seg1 st1 x1 .
  from updateTraffic_ok [OF dt(1) ok1 so1] obtain g2 where
    g2: "updateTraffic dt g1 = Inr g2" and l2: "length (segments g2) = length (segments g1)"
    and p2: "position g2 = position g1" and x2: "playerX g2 = playerX g1"
    and cars2: "\<forall>a \<in> carSet (segments g1).
              z (carStore g2 a) = advanceZ dt (real (length (segments g1)) * SEGMENT_LENGTH) (carStore g1 a) \<and>
              car.speed (carStore g2 a) = car.speed (carStore g1 a) \<and>
              car.offset (carStore g2 a) = car.offset (carStore g1 a)"
    by blast
  from updateTraffic_no_hit [OF dt(1) ok1 so1 nh1] g2 have
    k2: "isGameOver g2 = isGameOver g1" "speed g2 = speed g1" by auto
  have sp2: "\<forall>s \<in> set (segments g2). sprites s = []"
    unfolding no_sprites_map updateTraffic_sprites [OF g2] seg1
    using sp unfolding no_sprites_map .
  have n2: "0 < length (segments g2)" using l2 seg1 n0 by simp
  have c: "checkSpriteCollisions g2 = Inr g2"
    by (rule checkSpriteCollisions_no_sprites [OF n2 sp2])
  have up: "update dt cmd g = Inr g2"
    using ng by (simp add: update_def ps g1_def [symmetric] g2 c)
  from update_inv [OF dt inv, of cmd] up have
    i2: "roadInv g2" "carSet (segments g2) = carSet (segments g)" by auto
  have cars: "\<forall>a \<in> carSet (segments g).
              z (carStore g2 a) = advanceZ dt (real TOTAL_SEGMENTS * SEGMENT_LENGTH) (carStore g a) \<and>
              car.speed (carStore g2 a) = car.speed (carStore g a) \<and>
              car.offset (carStore g2 a) = car.offset (carStore g a)"
    using cars2 unfolding seg1 st1 n .
  show ?thesis
    apply (rule exI [of _ g2])
    using up i2 k2 go1 sp2 x2 x1 v1 p2 p1 cars by simp
qed

lemma trace_steps:
  assumes "ticksOK ticks" and "roadInv g"
  shows "\<exists>gs. trace ticks g = Inr gs \<and> length gs = length ticks \<and>
           (\<forall>k<length ticks.
              roadInv ((g # gs) ! k) \<and> carSet (segments ((g # gs) ! k)) = carSet (segments g) \<and>
              update (fst (ticks ! k)) (snd (ticks ! k)) ((g # gs) ! k) = Inr ((g # gs) ! Suc k))"
  using assms
proof (induction ticks arbitrary: g)
  case Nil
  then show ?case by simp
next
  case (Cons t ticks)
  obtain dt cmd where t: "t = (dt, cmd)" by (cases t) auto
  have dt: "0 \<le> dt" "dt \<le> 1" and rest: "ticksOK ticks"
    using Cons.prems(1) unfolding ticksOK_def t by auto
  from update_inv [OF dt Cons.prems(2)] obtain g1 where
    g1: "update dt cmd g = Inr g1" "roadInv g1" "carSet (segments g1) = carSet (segments g)" by blast
  from Cons.IH [OF rest g1(2)] obtain gs where
    gs: "trace ticks g1 = Inr gs" "length gs = length ticks"
    and st: "\<And>k. k < length ticks \<Longrightarrow>
              roadInv ((g1 # gs) ! k) \<and> carSet (segments ((g1 # gs) ! k)) = carSet (segments g1) \<and>
              update (fst (ticks ! k)) (snd (ticks ! k)) ((g1 # gs) ! k) = Inr ((g1 # gs) ! Suc k)"
    by blast
  have "roadInv ((g # g1 # gs) ! k) \<and> carSet (segments ((g # g1 # gs) ! k)) = carSet (segments g) \<and>
        update (fst ((t # ticks) ! k)) (snd ((t # ticks) ! k)) ((g # g1 # gs) ! k) = Inr ((g # g1 # gs) ! Suc k)"
    if "k < length (t # ticks)" for k
  proof (cases k)
    case 0
    then show ?thesis using g1 Cons.prems(2) by (simp add: t)
  next
    case (Suc k')
    then have "k' < length ticks" using that by simp
    from st [OF this] show ?thesis using Suc g1(3) by simp
  qed
  then show ?case
    using gs by (intro exI [of _ "g1 # gs"]) (simp add: t g1(1))
qed

lemma bool_change:
  "i \<le> k \<Longrightarrow> P i \<Longrightarrow> \<not> P k \<Longrightarrow> \<exists>m. i \<le> m \<and> m < k \<and> P m \<and> \<not> P (Suc m)"
proof (induction k)
  case 0
  then show ?case by simp
next
  case (Suc k)
  show ?case
  proof (cases "P k")
    case True
    then show ?thesis using Suc.prems by (metis le_SucE lessI)
  next
    case False
    have "i \<le> k" using Suc.prems by (metis le_SucE)
    from Suc.IH [OF this Suc.prems(2) False] show ?thesis by (meson less_Suc_eq)
  qed
qed

lemma flagStep_up:
  "flagStep a g g' \<Longrightarrow> \<not> justPassed (carStore g a) \<Longrightarrow> justPassed (carStore g' a) \<Longrightarrow> closeCall g g' a"
  by (auto simp: flagStep_def split: if_splits)

lemma flagStep_down:
  "flagStep a g g' \<Longrightarrow> justPassed (carStore g a) \<Longrightarrow> \<not> justPassed (carStore g' a) \<Longrightarrow>
   1000 < \<bar>relDepth g' a\<bar>"
  by (auto simp: flagStep_def split: if_splits)

lemma flagStep_cc:
  "flagStep a g g' \<Longrightarrow> closeCall g g' a \<Longrightarrow> \<not> justPassed (carStore g a) \<and> justPassed (carStore g' a)"
  by (auto simp: flagStep_def closeCall_def split: if_splits)

lemma update_flagStep:
  assumes dt: "0 \<le> dt" "dt \<le> 1" and inv: "roadInv g" and a: "a \<in> carSet (segments g)"
      and u: "update dt cmd g = Inr g'"
  shows "flagStep a g g'"
    and "\<exists>t. 0 \<le> t \<and> t \<le> 120 \<and>
              (\<not> isGameOver g' \<longrightarrow> t = (if speed g' > 0 then speed g' / 1000 * dt * 10 else 0)) \<and>
              score g' = score g + 500 * real (card {b \<in> carSet (segments g). closeCall g g' b}) + t"
proof -
  show "flagStep a g g'"
  proof (cases "isGameOver g")
    case True
    then show ?thesis using u by (simp add: flagStep_def update_def)
  next
    case False
    from update_close_call [OF dt inv False, of cmd] u a show ?thesis
      using False by (auto simp: flagStep_def)
  qed
  show "\<exists>t. 0 \<le> t \<and> t \<le> 120 \<and>
              (\<not> isGameOver g' \<longrightarrow> t = (if speed g' > 0 then speed g' / 1000 * dt * 10 else 0)) \<and>
              score g' = score g + 500 * real (card {b \<in> carSet (segments g). closeCall g g' b}) + t"
  proof (cases "isGameOver g")
    case True
    then have "g' = g" using u by (simp add: update_def)
    then show ?thesis using True by (intro exI [of _ 0]) (simp add: closeCall_def)
  next
    case False
    from update_close_call [OF dt inv False, of cmd] u show ?thesis by auto
  qed
qed

text \<open>
  C7. Let the frame loop run any sequence of ticks from a state of the running game (the
  state \<open>restart\<close> builds or one reached from it), and let \<open>a\<close> be a car of the road.
  Every update returns; \<open>ss\<close> lists the states, the initial one first. In each step the
  score grows by 500 for every car the step has a close call with (the step is not
  skipped, the flag of the car is clear, and the step finds the relative depth of the car
  strictly between -300 and -100 and the lateral distance strictly between 0.35 and 0.8)
  and by the distance score, which is at most 120. A step that is not skipped leaves the
  flag of the car set exactly when the relative depth is at most 1000 in absolute value
  and the flag was set before or the step is a close call with the car: the award sets
  the flag, and only a distance beyond 1000 clears it. So between two awards for the same
  car there is a step that leaves it more than 1000 away; and over a stretch of steps that
  begins with the flag clear, keeps the car within 1000, and finds it in the window and
  the band in some step that is not skipped, the bonus is awarded for the car in exactly
  one step.
\<close>

theorem close_call_once_per_approach:
  assumes "roadInv g" and "ticksOK ticks" and "a \<in> carSet (segments g)"
  shows "\<exists>gs ss. trace ticks g = Inr gs \<and> ss = g # gs \<and> length gs = length ticks \<and>
           (\<forall>k<length ticks.
              (\<exists>t. 0 \<le> t \<and> t \<le> 120 \<and>
                 (\<not> isGameOver (ss ! Suc k) \<longrightarrow>
                    t = (if speed (ss ! Suc k) > 0
                         then speed (ss ! Suc k) / 1000 * fst (ticks ! k) * 10 else 0)) \<and>
                 score (ss ! Suc k) = score (ss ! k) +
                   500 * real (card {b \<in> carSet (segments g). closeCall (ss ! k) (ss ! Suc k) b}) + t) \<and>
              (if isGameOver (ss ! k) then ss ! Suc k = ss ! k
               else (justPassed (carStore (ss ! Suc k) a) \<longleftrightarrow>
                       \<bar>relDepth (ss ! Suc k) a\<bar> \<le> 1000 \<and>
                       (justPassed (carStore (ss ! k) a) \<or> closeCall (ss ! k) (ss ! Suc k) a)))) \<and>
           (\<forall>j k. j < k \<and> k < length ticks \<and>
                  closeCall (ss ! j) (ss ! Suc j) a \<and> closeCall (ss ! k) (ss ! Suc k) a \<longrightarrow>
                  (\<exists>m. j < m \<and> m < k \<and> 1000 < \<bar>relDepth (ss ! Suc m) a\<bar>)) \<and>
           (\<forall>i j. i \<le> j \<and> j \<le> length ticks \<and> \<not> justPassed (carStore (ss ! i) a) \<and>
                  (\<forall>k. i \<le> k \<and> k < j \<longrightarrow> \<bar>relDepth (ss ! Suc k) a\<bar> \<le> 1000) \<and>
                  (\<exists>k. i \<le> k \<and> k < j \<and> \<not> isGameOver (ss ! k) \<and>
                       - 300 < relDepth (ss ! Suc k) a \<and> relDepth (ss ! Suc k) a < - 100 \<and>
                       inBand (ss ! Suc k) a) \<longrightarrow>
                  (\<exists>!k. i \<le> k \<and> k < j \<and> closeCall (ss ! k) (ss ! Suc k) a))"
proof -
  from trace_steps [OF assms(2,1)] obtain gs where
    tr: "trace ticks g = Inr gs" and len: "length gs = length ticks"
    and st: "\<And>k. k < length ticks \<Longrightarrow>
              roadInv ((g # gs) ! k) \<and> carSet (segments ((g # gs) ! k)) = carSet (segments g) \<and>
              update (fst (ticks ! k)) (snd (ticks ! k)) ((g # gs) ! k) = Inr ((g # gs) ! Suc k)"
    by blast
  define ss where "ss = g # gs"
  define F where "F = (\<lambda>k. justPassed (carStore (ss ! k) a))"
  have tk: "0 \<le> fst (ticks ! k)" "fst (ticks ! k) \<le> 1" if "k < length ticks" for k
    using assms(2) nth_mem [OF that] unfolding ticksOK_def by auto
  have inv: "roadInv (ss ! k)" and cs: "carSet (segments (ss ! k)) = carSet (segments g)"
    and up: "update (fst (ticks ! k)) (snd (ticks ! k)) (ss ! k) = Inr (ss ! Suc k)"
    if "k < length ticks" for k
    using st [OF that] unfolding ss_def by simp_all
  have fs: "flagStep a (ss ! k) (ss ! Suc k)" if "k < length ticks" for k
  proof -
    have "a \<in> carSet (segments (ss ! k))" using assms(3) cs [OF that] by simp
    from update_flagStep(1) [OF tk [OF that] inv [OF that] this up [OF that]] show ?thesis .
  qed
  have sc: "\<exists>t. 0 \<le> t \<and> t \<le> 120 \<and>
                 (\<not> isGameOver (ss ! Suc k) \<longrightarrow>
                    t = (if speed (ss ! Suc k) > 0
                         then speed (ss ! Suc k) / 1000 * fst (ticks ! k) * 10 else 0)) \<and>
                 score (ss ! Suc k) = score (ss ! k) +
                   500 * real (card {b \<in> carSet (segments g). closeCall (ss ! k) (ss ! Suc k) b}) + t"
    if "k < length ticks" for k
  proof -
    have "a \<in> carSet (segments (ss ! k))" using assms(3) cs [OF that] by simp
    from update_flagStep(2) [OF tk [OF that] inv [OF that] this up [OF that]] show ?thesis
      unfolding cs [OF that] .
  qed
  have step: "if isGameOver (ss ! k) then ss ! Suc k = ss ! k
               else (justPassed (carStore (ss ! Suc k) a) \<longleftrightarrow>
                       \<bar>relDepth (ss ! Suc k) a\<bar> \<le> 1000 \<and>
                       (justPassed (carStore (ss ! k) a) \<or> closeCall (ss ! k) (ss ! Suc k) a))"
    if "k < length ticks" for k
    using fs [OF that] unfolding flagStep_def .
  have C: "\<exists>m. j < m \<and> m < k \<and> 1000 < \<bar>relDepth (ss ! Suc m) a\<bar>"
    if "j < k" "k < length ticks" "closeCall (ss ! j) (ss ! Suc j) a" "closeCall (ss ! k) (ss ! Suc k) a"
    for j k
  proof -
    have j: "j < length ticks" using that by simp
    have "F (Suc j)" using flagStep_cc [OF fs [OF j] that(3)] by (simp add: F_def)
    moreover have "\<not> F k" using flagStep_cc [OF fs [OF that(2)] that(4)] by (simp add: F_def)
    moreover have "Suc j \<le> k" using that(1) by simp
    ultimately obtain m where m: "Suc j \<le> m" "m < k" "F m" "\<not> F (Suc m)"
      using bool_change [of "Suc j" k F] by blast
    have "m < length ticks" using m(2) that(2) by simp
    from flagStep_down [OF fs [OF this]] m(3,4) have far: "1000 < \<bar>relDepth (ss ! Suc m) a\<bar>"
      by (simp add: F_def)
    have "j < m" using m(1) by simp
    then show ?thesis using m(2) far by blast
  qed
  have D: "\<exists>!k. i \<le> k \<and> k < j \<and> closeCall (ss ! k) (ss ! Suc k) a"
    if ij: "i \<le> j" "j \<le> length ticks" and f0: "\<not> justPassed (carStore (ss ! i) a)"
      and nofar: "\<forall>k. i \<le> k \<and> k < j \<longrightarrow> \<bar>relDepth (ss ! Suc k) a\<bar> \<le> 1000"
      and ex: "\<exists>k. i \<le> k \<and> k < j \<and> \<not> isGameOver (ss ! k) \<and>
                       - 300 < relDepth (ss ! Suc k) a \<and> relDepth (ss ! Suc k) a < - 100 \<and>
                       inBand (ss ! Suc k) a"
    for i j
  proof (rule ex_ex1I)
    from ex obtain k0 where k0: "i \<le> k0" "k0 < j" "\<not> isGameOver (ss ! k0)"
      "- 300 < relDepth (ss ! Suc k0) a" "relDepth (ss ! Suc k0) a < - 100" "inBand (ss ! Suc k0) a"
      by blast
    show "\<exists>k. i \<le> k \<and> k < j \<and> closeCall (ss ! k) (ss ! Suc k) a"
    proof (cases "F k0")
      case False
      then have "closeCall (ss ! k0) (ss ! Suc k0) a"
        using k0 by (simp add: closeCall_def F_def)
      then show ?thesis using k0(1,2) by blast
    next
      case True
      have "\<not> F i" using f0 by (simp add: F_def)
      then obtain m where m: "i \<le> m" "m < k0" "\<not> F m" "\<not> \<not> F (Suc m)"
        using bool_change [of i k0 "\<lambda>k. \<not> F k"] k0(1) True by blast
      have "m < length ticks" using m(2) k0(2) ij(2) by simp
      from flagStep_up [OF fs [OF this]] m(3,4) have "closeCall (ss ! m) (ss ! Suc m) a"
        by (simp add: F_def)
      moreover have "m < j" using m(2) k0(2) by simp
      ultimately show ?thesis using m(1) by blast
    qed
  next
    fix k1 k2
    assume a1: "i \<le> k1 \<and> k1 < j \<and> closeCall (ss ! k1) (ss ! Suc k1) a"
       and a2: "i \<le> k2 \<and> k2 < j \<and> closeCall (ss ! k2) (ss ! Suc k2) a"
    have no: False if lt: "p < q" and p: "i \<le> p" "closeCall (ss ! p) (ss ! Suc p) a"
      and q: "q < j" "closeCall (ss ! q) (ss ! Suc q) a" for p q
    proof -
      have "q < length ticks" using q(1) ij(2) by simp
      from C [OF lt this p(2) q(2)] obtain m where m: "p < m" "m < q" "1000 < \<bar>relDepth (ss ! Suc m) a\<bar>"
        by blast
      have "i \<le> m \<and> m < j" using m(1,2) p(1) q(1) by simp
      then show False using nofar m(3) by fastforce
    qed
    show "k1 = k2"
    proof (rule ccontr)
      assume "k1 \<noteq> k2"
      then consider "k1 < k2" | "k2 < k1" by linarith
      then show False
      proof cases
        case 1
        then show False using no [of k1 k2] a1 a2 by blast
      next
        case 2
        then show False using no [of k2 k1] a1 a2 by blast
      qed
    qed
  qed
  show ?thesis
    apply (rule exI [of _ gs])
    apply (rule exI [of _ ss])
    apply (intro conjI allI impI)
         apply (rule tr)
        apply (rule ss_def)
       apply (rule len)
      apply (rule sc, assumption)
     apply (rule step, assumption)
    using C apply blast
    using D apply blast
    done
qed

lemma buildInv_midCar: "buildInv TOTAL_SEGMENTS midCar"
  unfolding midCar_def
  by (intro addCar_buildInv buildInv_emptyRoad) (simp_all add: emptyRoad_cars TOTAL_SEGMENTS_def)

lemma midCar_cars:
  "i < TOTAL_SEGMENTS \<Longrightarrow> cars (rsegments midCar ! i) = (if i = 6 then [6] else [])"
  by (simp add: midCar_def addCar_cars_nth emptyRoad_cars TOTAL_SEGMENTS_def)

lemma carSet_midCar: "carSet (rsegments midCar) = {6}"
  unfolding buildInv_carSet [OF buildInv_midCar]
  by (auto simp: midCar_cars TOTAL_SEGMENTS_def split: if_splits)

lemma midCar_store:
  "car.offset (rstore midCar 6) = 0" "z (rstore midCar 6) = 1200" "car.speed (rstore midCar 6) = 5600"
  "\<not> justPassed (rstore midCar 6)"
  by (simp_all add: midCar_def addCar_def SEGMENT_LENGTH_def)

lemma midCar_sprites: "\<forall>s \<in> set (rsegments midCar). sprites s = []"
proof -
  have "map sprites (rsegments midCar) = map sprites (rsegments emptyRoad)"
    unfolding midCar_def addCar_def by (simp add: sprites_update)
  moreover have "\<forall>x \<in> set (map sprites (rsegments emptyRoad)). x = []"
    by (auto simp: emptyRoad_def newSegment_def)
  ultimately show ?thesis unfolding no_sprites_map by simp
qed

lemma passScene_facts:
  "roadInv passScene" "\<not> isGameOver passScene" "\<forall>s \<in> set (segments passScene). sprites s = []"
  "carSet (segments passScene) = {6}" "playerX passScene = Num (1 / 2)"
  "car.offset (carStore passScene 6) = 0" "car.speed (carStore passScene 6) = 5600"
  "position passScene = 150" "speed passScene = 12000" "z (carStore passScene 6) = 1200"
  "\<not> justPassed (carStore passScene 6)" "score passScene = 0"
proof -
  show "roadInv passScene"
    unfolding passScene_def by (rule roadGame_inv [OF buildInv_midCar]) (simp_all add: CONFIG)
qed (simp_all add: passScene_def midCar_sprites carSet_midCar midCar_store)

lemma pass_step:
  assumes g: "roadInv g" "\<not> isGameOver g" "\<forall>s \<in> set (segments g). sprites s = []"
      "carSet (segments g) = {6}" "playerX g = Num (1 / 2)"
      "car.offset (carStore g 6) = 0" "car.speed (carStore g 6) = 5600"
    and dt: "0 \<le> dt" "dt \<le> 1" and st: "steer cmd = Num 0"
    and v: "throttle dt cmd (speed g) = v'"
    and p: "position g + v' * dt = p'" "0 \<le> p'" "p' < 400000"
    and c: "z (carStore g 6) + 5600 * dt = zc'" "0 \<le> zc'" "zc' \<le> 400000"
  shows "\<exists>g'. update dt cmd g = Inr g' \<and>
           (roadInv g' \<and> \<not> isGameOver g' \<and> (\<forall>s \<in> set (segments g'). sprites s = []) \<and>
            carSet (segments g') = {6} \<and> playerX g' = Num (1 / 2) \<and>
            car.offset (carStore g' 6) = 0 \<and> car.speed (carStore g' 6) = 5600) \<and>
           position g' = p' \<and> speed g' = v' \<and> z (carStore g' 6) = zc' \<and>
           relDepth g' 6 = wrapDist 400000 (zc' - (p' + 1000)) \<and> inBand g' 6"
proof -
  have nh: "\<forall>a \<in> carSet (segments g).
              \<not> overlap (Num (1 / 2)) (15 / 100) (car.offset (carStore g a)) (45 / 100)"
    by (simp add: g(4,6) overlap_def Let_def)
  from update_no_crash [OF dt g(1,2,3) st g(5) _ _ nh] obtain g' where
    u: "update dt cmd g = Inr g'" and i: "roadInv g'" "\<not> isGameOver g'"
      "\<forall>s \<in> set (segments g'). sprites s = []" "carSet (segments g') = carSet (segments g)"
      "playerX g' = Num (1 / 2)" "speed g' = throttle dt cmd (speed g)"
    and pos: "position g' =
             (let p1 = position g + throttle dt cmd (speed g) * dt;
                  tl = real TOTAL_SEGMENTS * SEGMENT_LENGTH;
                  p2 = (if p1 \<ge> tl then p1 - tl else p1)
              in if p2 < 0 then p2 + tl else p2)"
    and cars: "\<forall>a \<in> carSet (segments g).
              z (carStore g' a) = advanceZ dt (real TOTAL_SEGMENTS * SEGMENT_LENGTH) (carStore g a) \<and>
              car.speed (carStore g' a) = car.speed (carStore g a) \<and>
              car.offset (carStore g' a) = car.offset (carStore g a)"
    by auto
  have p': "position g' = p'"
    unfolding pos v Let_def p(1) using p(2,3) by (simp add: CONFIG)
  have z': "z (carStore g' 6) = zc'"
    using cars c by (simp add: g(4,7) advanceZ_def Let_def CONFIG)
  have o': "car.offset (carStore g' 6) = 0" "car.speed (carStore g' 6) = 5600"
    using cars by (simp_all add: g(4,6,7))
  have n: "length (segments g') = TOTAL_SEGMENTS" using i(1) unfolding roadInv_def by simp
  have rd: "relDepth g' 6 = wrapDist 400000 (zc' - (p' + 1000))"
    by (simp add: relDepth_def n p' z' CONFIG)
  have ib: "inBand g' 6" by (simp add: inBand_def i(5) o')
  show ?thesis
    apply (rule exI [of _ g'])
    using u i(1,2,3,5) i(4) g(4) o' p' i(6) v z' rd ib by simp
qed

theorem close_call_once_per_approach_witness:
  "roadInv passScene \<and> ticksOK passTicks \<and> 6 \<in> carSet (segments passScene) \<and>
   (\<exists>gs ss. trace passTicks passScene = Inr gs \<and> ss = passScene # gs \<and> length gs = 8 \<and>
      map isGameOver ss = [False, False, False, False, False, False, False, False, False] \<and>
      map (\<lambda>g. relDepth g 6) ss = [50, - 50, - 150, - 250, - 350, - 6750, - 1150, - 450, - 275] \<and>
      map (\<lambda>g. inBand g 6) gs = [True, True, True, True, True, True, True, True] \<and>
      map (\<lambda>k. closeCall (ss ! k) (ss ! Suc k) 6) [0, 1, 2, 3, 4, 5, 6, 7] = [False, True, False, False, False, False, False, True] \<and>
      map (\<lambda>g. justPassed (carStore g 6)) ss = [False, False, True, True, True, False, False, False, True] \<and>
      map score ss = [0, 15 / 8, 2015 / 4, 4045 / 8, 1015 / 2, 1255 / 2, 1255 / 2, 1255 / 2, 2255 / 2] \<and>
      (\<exists>m. 1 < m \<and> m < 7 \<and> 1000 < \<bar>relDepth (ss ! Suc m) 6\<bar>) \<and>
      (\<exists>!k. 0 \<le> k \<and> k < 4 \<and> closeCall (ss ! k) (ss ! Suc k) 6) \<and>
      (\<exists>!k. 6 \<le> k \<and> k < 8 \<and> closeCall (ss ! k) (ss ! Suc k) 6))"
proof -
  note p0 = passScene_facts(1-7)
  have c0: "steer fullThrottle = Num 0" "steer fullBrake = Num 0"
    by (simp_all add: fullThrottle_def fullBrake_def)

  have "\<exists>g'. update (1 / 64) fullThrottle passScene = Inr g' \<and>
           (roadInv g' \<and> \<not> isGameOver g' \<and> (\<forall>s \<in> set (segments g'). sprites s = []) \<and>
            carSet (segments g') = {6} \<and> playerX g' = Num (1 / 2) \<and>
            car.offset (carStore g' 6) = 0 \<and> car.speed (carStore g' 6) = 5600) \<and>
           position g' = 675 / 2 \<and> speed g' = 12000 \<and> z (carStore g' 6) = 2575 / 2 \<and>
           relDepth g' 6 = wrapDist 400000 (2575 / 2 - (675 / 2 + 1000)) \<and> inBand g' 6"
    by (rule pass_step [OF p0])
       (simp_all add: passScene_facts c0 fullThrottle_def fullBrake_def throttle_def CONFIG)
  then obtain g1 where u1: "update (1 / 64) fullThrottle passScene = Inr g1"
    and i1: "roadInv g1 \<and> \<not> isGameOver g1 \<and> (\<forall>s \<in> set (segments g1). sprites s = []) \<and>
            carSet (segments g1) = {6} \<and> playerX g1 = Num (1 / 2) \<and>
            car.offset (carStore g1 6) = 0 \<and> car.speed (carStore g1 6) = 5600"
    and f1: "position g1 = 675 / 2" "speed g1 = 12000" "z (carStore g1 6) = 2575 / 2"
    and r1: "relDepth g1 6 = wrapDist 400000 (2575 / 2 - (675 / 2 + 1000))" and b1: "inBand g1 6"
    by blast
  have p1: "roadInv g1" "\<not> isGameOver g1" "\<forall>s \<in> set (segments g1). sprites s = []"
    "carSet (segments g1) = {6}" "playerX g1 = Num (1 / 2)"
    "car.offset (carStore g1 6) = 0" "car.speed (carStore g1 6) = 5600"
    using i1 by blast+
  have d1: "relDepth g1 6 = - 50" unfolding r1 by (simp add: wrapDist_def)

  have "\<exists>g'. update (1 / 64) fullThrottle g1 = Inr g' \<and>
           (roadInv g' \<and> \<not> isGameOver g' \<and> (\<forall>s \<in> set (segments g'). sprites s = []) \<and>
            carSet (segments g') = {6} \<and> playerX g' = Num (1 / 2) \<and>
            car.offset (carStore g' 6) = 0 \<and> car.speed (carStore g' 6) = 5600) \<and>
           position g' = 525 \<and> speed g' = 12000 \<and> z (carStore g' 6) = 1375 \<and>
           relDepth g' 6 = wrapDist 400000 (1375 - (525 + 1000)) \<and> inBand g' 6"
    by (rule pass_step [OF p1])
       (simp_all add: f1 c0 fullThrottle_def fullBrake_def throttle_def CONFIG)
  then obtain g2 where u2: "update (1 / 64) fullThrottle g1 = Inr g2"
    and i2: "roadInv g2 \<and> \<not> isGameOver g2 \<and> (\<forall>s \<in> set (segments g2). sprites s = []) \<and>
            carSet (segments g2) = {6} \<and> playerX g2 = Num (1 / 2) \<and>
            car.offset (carStore g2 6) = 0 \<and> car.speed (carStore g2 6) = 5600"
    and f2: "position g2 = 525" "speed g2 = 12000" "z (carStore g2 6) = 1375"
    and r2: "relDepth g2 6 = wrapDist 400000 (1375 - (525 + 1000))" and b2: "inBand g2 6"
    by blast
  have p2: "roadInv g2" "\<not> isGameOver g2" "\<forall>s \<in> set (segments g2). sprites s = []"
    "carSet (segments g2) = {6}" "playerX g2 = Num (1 / 2)"
    "car.offset (carStore g2 6) = 0" "car.speed (carStore g2 6) = 5600"
    using i2 by blast+
  have d2: "relDepth g2 6 = - 150" unfolding r2 by (simp add: wrapDist_def)

  have "\<exists>g'. update (1 / 64) fullThrottle g2 = Inr g' \<and>
           (roadInv g' \<and> \<not> isGameOver g' \<and> (\<forall>s \<in> set (segments g'). sprites s = []) \<and>
            carSet (segments g') = {6} \<and> playerX g' = Num (1 / 2) \<and>
            car.offset (carStore g' 6) = 0 \<and> car.speed (carStore g' 6) = 5600) \<and>
           position g' = 1425 / 2 \<and> speed g' = 12000 \<and> z (carStore g' 6) = 2925 / 2 \<and>
           relDepth g' 6 = wrapDist 400000 (2925 / 2 - (1425 / 2 + 1000)) \<and> inBand g' 6"
    by (rule pass_step [OF p2])
       (simp_all add: f2 c0 fullThrottle_def fullBrake_def throttle_def CONFIG)
  then obtain g3 where u3: "update (1 / 64) fullThrottle g2 = Inr g3"
    and i3: "roadInv g3 \<and> \<not> isGameOver g3 \<and> (\<forall>s \<in> set (segments g3). sprites s = []) \<and>
            carSet (segments g3) = {6} \<and> playerX g3 = Num (1 / 2) \<and>
            car.offset (carStore g3 6) = 0 \<and> car.speed (carStore g3 6) = 5600"
    and f3: "position g3 = 1425 / 2" "speed g3 = 12000" "z (carStore g3 6) = 2925 / 2"
    and r3: "relDepth g3 6 = wrapDist 400000 (2925 / 2 - (1425 / 2 + 1000))" and b3: "inBand g3 6"
    by blast
  have p3: "roadInv g3" "\<not> isGameOver g3" "\<forall>s \<in> set (segments g3). sprites s = []"
    "carSet (segments g3) = {6}" "playerX g3 = Num (1 / 2)"
    "car.offset (carStore g3 6) = 0" "car.speed (carStore g3 6) = 5600"
    using i3 by blast+
  have d3: "relDepth g3 6 = - 250" unfolding r3 by (simp add: wrapDist_def)

  have "\<exists>g'. update (1 / 64) fullThrottle g3 = Inr g' \<and>
           (roadInv g' \<and> \<not> isGameOver g' \<and> (\<forall>s \<in> set (segments g'). sprites s = []) \<and>
            carSet (segments g') = {6} \<and> playerX g' = Num (1 / 2) \<and>
            car.offset (carStore g' 6) = 0 \<and> car.speed (carStore g' 6) = 5600) \<and>
           position g' = 900 \<and> speed g' = 12000 \<and> z (carStore g' 6) = 1550 \<and>
           relDepth g' 6 = wrapDist 400000 (1550 - (900 + 1000)) \<and> inBand g' 6"
    by (rule pass_step [OF p3])
       (simp_all add: f3 c0 fullThrottle_def fullBrake_def throttle_def CONFIG)
  then obtain g4 where u4: "update (1 / 64) fullThrottle g3 = Inr g4"
    and i4: "roadInv g4 \<and> \<not> isGameOver g4 \<and> (\<forall>s \<in> set (segments g4). sprites s = []) \<and>
            carSet (segments g4) = {6} \<and> playerX g4 = Num (1 / 2) \<and>
            car.offset (carStore g4 6) = 0 \<and> car.speed (carStore g4 6) = 5600"
    and f4: "position g4 = 900" "speed g4 = 12000" "z (carStore g4 6) = 1550"
    and r4: "relDepth g4 6 = wrapDist 400000 (1550 - (900 + 1000))" and b4: "inBand g4 6"
    by blast
  have p4: "roadInv g4" "\<not> isGameOver g4" "\<forall>s \<in> set (segments g4). sprites s = []"
    "carSet (segments g4) = {6}" "playerX g4 = Num (1 / 2)"
    "car.offset (carStore g4 6) = 0" "car.speed (carStore g4 6) = 5600"
    using i4 by blast+
  have d4: "relDepth g4 6 = - 350" unfolding r4 by (simp add: wrapDist_def)

  have "\<exists>g'. update (1) fullThrottle g4 = Inr g' \<and>
           (roadInv g' \<and> \<not> isGameOver g' \<and> (\<forall>s \<in> set (segments g'). sprites s = []) \<and>
            carSet (segments g') = {6} \<and> playerX g' = Num (1 / 2) \<and>
            car.offset (carStore g' 6) = 0 \<and> car.speed (carStore g' 6) = 5600) \<and>
           position g' = 12900 \<and> speed g' = 12000 \<and> z (carStore g' 6) = 7150 \<and>
           relDepth g' 6 = wrapDist 400000 (7150 - (12900 + 1000)) \<and> inBand g' 6"
    by (rule pass_step [OF p4])
       (simp_all add: f4 c0 fullThrottle_def fullBrake_def throttle_def CONFIG)
  then obtain g5 where u5: "update (1) fullThrottle g4 = Inr g5"
    and i5: "roadInv g5 \<and> \<not> isGameOver g5 \<and> (\<forall>s \<in> set (segments g5). sprites s = []) \<and>
            carSet (segments g5) = {6} \<and> playerX g5 = Num (1 / 2) \<and>
            car.offset (carStore g5 6) = 0 \<and> car.speed (carStore g5 6) = 5600"
    and f5: "position g5 = 12900" "speed g5 = 12000" "z (carStore g5 6) = 7150"
    and r5: "relDepth g5 6 = wrapDist 400000 (7150 - (12900 + 1000))" and b5: "inBand g5 6"
    by blast
  have p5: "roadInv g5" "\<not> isGameOver g5" "\<forall>s \<in> set (segments g5). sprites s = []"
    "carSet (segments g5) = {6}" "playerX g5 = Num (1 / 2)"
    "car.offset (carStore g5 6) = 0" "car.speed (carStore g5 6) = 5600"
    using i5 by blast+
  have d5: "relDepth g5 6 = - 6750" unfolding r5 by (simp add: wrapDist_def)

  have "\<exists>g'. update (1) fullBrake g5 = Inr g' \<and>
           (roadInv g' \<and> \<not> isGameOver g' \<and> (\<forall>s \<in> set (segments g'). sprites s = []) \<and>
            carSet (segments g') = {6} \<and> playerX g' = Num (1 / 2) \<and>
            car.offset (carStore g' 6) = 0 \<and> car.speed (carStore g' 6) = 5600) \<and>
           position g' = 12900 \<and> speed g' = 0 \<and> z (carStore g' 6) = 12750 \<and>
           relDepth g' 6 = wrapDist 400000 (12750 - (12900 + 1000)) \<and> inBand g' 6"
    by (rule pass_step [OF p5])
       (simp_all add: f5 c0 fullThrottle_def fullBrake_def throttle_def CONFIG)
  then obtain g6 where u6: "update (1) fullBrake g5 = Inr g6"
    and i6: "roadInv g6 \<and> \<not> isGameOver g6 \<and> (\<forall>s \<in> set (segments g6). sprites s = []) \<and>
            carSet (segments g6) = {6} \<and> playerX g6 = Num (1 / 2) \<and>
            car.offset (carStore g6 6) = 0 \<and> car.speed (carStore g6 6) = 5600"
    and f6: "position g6 = 12900" "speed g6 = 0" "z (carStore g6 6) = 12750"
    and r6: "relDepth g6 6 = wrapDist 400000 (12750 - (12900 + 1000))" and b6: "inBand g6 6"
    by blast
  have p6: "roadInv g6" "\<not> isGameOver g6" "\<forall>s \<in> set (segments g6). sprites s = []"
    "carSet (segments g6) = {6}" "playerX g6 = Num (1 / 2)"
    "car.offset (carStore g6 6) = 0" "car.speed (carStore g6 6) = 5600"
    using i6 by blast+
  have d6: "relDepth g6 6 = - 1150" unfolding r6 by (simp add: wrapDist_def)

  have "\<exists>g'. update (1 / 8) fullBrake g6 = Inr g' \<and>
           (roadInv g' \<and> \<not> isGameOver g' \<and> (\<forall>s \<in> set (segments g'). sprites s = []) \<and>
            carSet (segments g') = {6} \<and> playerX g' = Num (1 / 2) \<and>
            car.offset (carStore g' 6) = 0 \<and> car.speed (carStore g' 6) = 5600) \<and>
           position g' = 12900 \<and> speed g' = 0 \<and> z (carStore g' 6) = 13450 \<and>
           relDepth g' 6 = wrapDist 400000 (13450 - (12900 + 1000)) \<and> inBand g' 6"
    by (rule pass_step [OF p6])
       (simp_all add: f6 c0 fullThrottle_def fullBrake_def throttle_def CONFIG)
  then obtain g7 where u7: "update (1 / 8) fullBrake g6 = Inr g7"
    and i7: "roadInv g7 \<and> \<not> isGameOver g7 \<and> (\<forall>s \<in> set (segments g7). sprites s = []) \<and>
            carSet (segments g7) = {6} \<and> playerX g7 = Num (1 / 2) \<and>
            car.offset (carStore g7 6) = 0 \<and> car.speed (carStore g7 6) = 5600"
    and f7: "position g7 = 12900" "speed g7 = 0" "z (carStore g7 6) = 13450"
    and r7: "relDepth g7 6 = wrapDist 400000 (13450 - (12900 + 1000))" and b7: "inBand g7 6"
    by blast
  have p7: "roadInv g7" "\<not> isGameOver g7" "\<forall>s \<in> set (segments g7). sprites s = []"
    "carSet (segments g7) = {6}" "playerX g7 = Num (1 / 2)"
    "car.offset (carStore g7 6) = 0" "car.speed (carStore g7 6) = 5600"
    using i7 by blast+
  have d7: "relDepth g7 6 = - 450" unfolding r7 by (simp add: wrapDist_def)

  have "\<exists>g'. update (1 / 32) fullBrake g7 = Inr g' \<and>
           (roadInv g' \<and> \<not> isGameOver g' \<and> (\<forall>s \<in> set (segments g'). sprites s = []) \<and>
            carSet (segments g') = {6} \<and> playerX g' = Num (1 / 2) \<and>
            car.offset (carStore g' 6) = 0 \<and> car.speed (carStore g' 6) = 5600) \<and>
           position g' = 12900 \<and> speed g' = 0 \<and> z (carStore g' 6) = 13625 \<and>
           relDepth g' 6 = wrapDist 400000 (13625 - (12900 + 1000)) \<and> inBand g' 6"
    by (rule pass_step [OF p7])
       (simp_all add: f7 c0 fullThrottle_def fullBrake_def throttle_def CONFIG)
  then obtain g8 where u8: "update (1 / 32) fullBrake g7 = Inr g8"
    and i8: "roadInv g8 \<and> \<not> isGameOver g8 \<and> (\<forall>s \<in> set (segments g8). sprites s = []) \<and>
            carSet (segments g8) = {6} \<and> playerX g8 = Num (1 / 2) \<and>
            car.offset (carStore g8 6) = 0 \<and> car.speed (carStore g8 6) = 5600"
    and f8: "position g8 = 12900" "speed g8 = 0" "z (carStore g8 6) = 13625"
    and r8: "relDepth g8 6 = wrapDist 400000 (13625 - (12900 + 1000))" and b8: "inBand g8 6"
    by blast
  have p8: "roadInv g8" "\<not> isGameOver g8" "\<forall>s \<in> set (segments g8). sprites s = []"
    "carSet (segments g8) = {6}" "playerX g8 = Num (1 / 2)"
    "car.offset (carStore g8 6) = 0" "car.speed (carStore g8 6) = 5600"
    using i8 by blast+
  have d8: "relDepth g8 6 = - 275" unfolding r8 by (simp add: wrapDist_def)

  have n0: "length (segments passScene) = TOTAL_SEGMENTS"
    using passScene_facts(1) unfolding roadInv_def by simp
  have d0: "relDepth passScene 6 = 50"
    by (simp add: relDepth_def n0 passScene_facts wrapDist_def CONFIG)
  have tr: "trace passTicks passScene = Inr [g1, g2, g3, g4, g5, g6, g7, g8]"
    by (simp add: passTicks_def u1 u2 u3 u4 u5 u6 u7 u8)
  have tk: "ticksOK passTicks" by (simp add: ticksOK_def passTicks_def)
  have a6: "6 \<in> carSet (segments passScene)" by (simp add: passScene_facts)
  have len: "length passTicks = 8" by (simp add: passTicks_def)
  from close_call_once_per_approach [OF passScene_facts(1) tk a6] tr obtain ss where
    ss: "ss = [passScene, g1, g2, g3, g4, g5, g6, g7, g8]"
    and per: "\<And>k. k < 8 \<Longrightarrow>
              (\<exists>t. 0 \<le> t \<and> t \<le> 120 \<and>
                 (\<not> isGameOver (ss ! Suc k) \<longrightarrow>
                    t = (if speed (ss ! Suc k) > 0
                         then speed (ss ! Suc k) / 1000 * fst (passTicks ! k) * 10 else 0)) \<and>
                 score (ss ! Suc k) = score (ss ! k) +
                   500 * real (card {b \<in> carSet (segments passScene). closeCall (ss ! k) (ss ! Suc k) b}) + t) \<and>
              (if isGameOver (ss ! k) then ss ! Suc k = ss ! k
               else (justPassed (carStore (ss ! Suc k) 6) \<longleftrightarrow>
                       \<bar>relDepth (ss ! Suc k) 6\<bar> \<le> 1000 \<and>
                       (justPassed (carStore (ss ! k) 6) \<or> closeCall (ss ! k) (ss ! Suc k) 6)))"
    and C: "\<And>j k. j < k \<and> k < 8 \<and>
                  closeCall (ss ! j) (ss ! Suc j) 6 \<and> closeCall (ss ! k) (ss ! Suc k) 6 \<Longrightarrow>
                  (\<exists>m. j < m \<and> m < k \<and> 1000 < \<bar>relDepth (ss ! Suc m) 6\<bar>)"
    and D: "\<And>i j. i \<le> j \<and> j \<le> 8 \<and> \<not> justPassed (carStore (ss ! i) 6) \<and>
                  (\<forall>k. i \<le> k \<and> k < j \<longrightarrow> \<bar>relDepth (ss ! Suc k) 6\<bar> \<le> 1000) \<and>
                  (\<exists>k. i \<le> k \<and> k < j \<and> \<not> isGameOver (ss ! k) \<and>
                       - 300 < relDepth (ss ! Suc k) 6 \<and> relDepth (ss ! Suc k) 6 < - 100 \<and>
                       inBand (ss ! Suc k) 6) \<Longrightarrow>
                  (\<exists>!k. i \<le> k \<and> k < j \<and> closeCall (ss ! k) (ss ! Suc k) 6)"
    unfolding len by auto
  have nth: "ss ! 0 = passScene" "ss ! 1 = g1" "ss ! 2 = g2" "ss ! 3 = g3" "ss ! 4 = g4" "ss ! 5 = g5" "ss ! 6 = g6" "ss ! 7 = g7" "ss ! 8 = g8"
    unfolding ss by simp_all
  have nths: "ss ! Suc 0 = g1" "ss ! Suc 1 = g2" "ss ! Suc 2 = g3" "ss ! Suc 3 = g4" "ss ! Suc 4 = g5" "ss ! Suc 5 = g6" "ss ! Suc 6 = g7" "ss ! Suc 7 = g8"
    unfolding ss by simp_all
  have tks: "fst (passTicks ! 0) = 1 / 64" "fst (passTicks ! 1) = 1 / 64" "fst (passTicks ! 2) = 1 / 64" "fst (passTicks ! 3) = 1 / 64" "fst (passTicks ! 4) = 1" "fst (passTicks ! 5) = 1" "fst (passTicks ! 6) = 1 / 8" "fst (passTicks ! 7) = 1 / 32"
    by (simp_all add: passTicks_def)
  have lts: "(0::nat) < 8" "(1::nat) < 8" "(2::nat) < 8" "(3::nat) < 8" "(4::nat) < 8" "(5::nat) < 8" "(6::nat) < 8" "(7::nat) < 8"
    by simp_all
  have cs: "carSet (segments passScene) = {6}" by (rule passScene_facts)
  have j0: "\<not> justPassed (carStore passScene 6)" "score passScene = 0"
    by (simp_all add: passScene_facts)

  have cc0: "closeCall passScene g1 6 = False"
    by (simp add: closeCall_def passScene_facts(2) j0 d1 b1)
  have j1: "\<not> justPassed (carStore g1 6)" "score g1 = 15 / 8"
  proof -
    from per [OF lts(1), unfolded nths nth tks] obtain t where
      t: "\<not> isGameOver g1 \<longrightarrow>
                    t = (if speed g1 > 0 then speed g1 / 1000 * (1 / 64) * 10 else 0)"
      and s: "score g1 = score passScene +
                   500 * real (card {b \<in> carSet (segments passScene). closeCall passScene g1 b}) + t"
      and f: "if isGameOver passScene then g1 = passScene
               else (justPassed (carStore g1 6) \<longleftrightarrow>
                       \<bar>relDepth g1 6\<bar> \<le> 1000 \<and>
                       (justPassed (carStore passScene 6) \<or> closeCall passScene g1 6))"
      by auto
    have e: "{b \<in> carSet (segments passScene). closeCall passScene g1 b} = (if closeCall passScene g1 6 then {6} else {})"
      unfolding cs by auto
    show "\<not> justPassed (carStore g1 6)"
      using f by (simp add: passScene_facts(2) j0 d1 cc0)
    show "score g1 = 15 / 8"
      using t s by (simp add: e cc0 p1 f1 j0)
  qed

  have cc1: "closeCall g1 g2 6 = True"
    by (simp add: closeCall_def p1 j1 d2 b2)
  have j2: "justPassed (carStore g2 6)" "score g2 = 2015 / 4"
  proof -
    from per [OF lts(2), unfolded nths nth tks] obtain t where
      t: "\<not> isGameOver g2 \<longrightarrow>
                    t = (if speed g2 > 0 then speed g2 / 1000 * (1 / 64) * 10 else 0)"
      and s: "score g2 = score g1 +
                   500 * real (card {b \<in> carSet (segments passScene). closeCall g1 g2 b}) + t"
      and f: "if isGameOver g1 then g2 = g1
               else (justPassed (carStore g2 6) \<longleftrightarrow>
                       \<bar>relDepth g2 6\<bar> \<le> 1000 \<and>
                       (justPassed (carStore g1 6) \<or> closeCall g1 g2 6))"
      by auto
    have e: "{b \<in> carSet (segments passScene). closeCall g1 g2 b} = (if closeCall g1 g2 6 then {6} else {})"
      unfolding cs by auto
    show "justPassed (carStore g2 6)"
      using f by (simp add: p1 j1 d2 cc1)
    show "score g2 = 2015 / 4"
      using t s by (simp add: e cc1 p2 f2 j1)
  qed

  have cc2: "closeCall g2 g3 6 = False"
    by (simp add: closeCall_def p2 j2 d3 b3)
  have j3: "justPassed (carStore g3 6)" "score g3 = 4045 / 8"
  proof -
    from per [OF lts(3), unfolded nths nth tks] obtain t where
      t: "\<not> isGameOver g3 \<longrightarrow>
                    t = (if speed g3 > 0 then speed g3 / 1000 * (1 / 64) * 10 else 0)"
      and s: "score g3 = score g2 +
                   500 * real (card {b \<in> carSet (segments passScene). closeCall g2 g3 b}) + t"
      and f: "if isGameOver g2 then g3 = g2
               else (justPassed (carStore g3 6) \<longleftrightarrow>
                       \<bar>relDepth g3 6\<bar> \<le> 1000 \<and>
                       (justPassed (carStore g2 6) \<or> closeCall g2 g3 6))"
      by auto
    have e: "{b \<in> carSet (segments passScene). closeCall g2 g3 b} = (if closeCall g2 g3 6 then {6} else {})"
      unfolding cs by auto
    show "justPassed (carStore g3 6)"
      using f by (simp add: p2 j2 d3 cc2)
    show "score g3 = 4045 / 8"
      using t s by (simp add: e cc2 p3 f3 j2)
  qed

  have cc3: "closeCall g3 g4 6 = False"
    by (simp add: closeCall_def p3 j3 d4 b4)
  have j4: "justPassed (carStore g4 6)" "score g4 = 1015 / 2"
  proof -
    from per [OF lts(4), unfolded nths nth tks] obtain t where
      t: "\<not> isGameOver g4 \<longrightarrow>
                    t = (if speed g4 > 0 then speed g4 / 1000 * (1 / 64) * 10 else 0)"
      and s: "score g4 = score g3 +
                   500 * real (card {b \<in> carSet (segments passScene). closeCall g3 g4 b}) + t"
      and f: "if isGameOver g3 then g4 = g3
               else (justPassed (carStore g4 6) \<longleftrightarrow>
                       \<bar>relDepth g4 6\<bar> \<le> 1000 \<and>
                       (justPassed (carStore g3 6) \<or> closeCall g3 g4 6))"
      by auto
    have e: "{b \<in> carSet (segments passScene). closeCall g3 g4 b} = (if closeCall g3 g4 6 then {6} else {})"
      unfolding cs by auto
    show "justPassed (carStore g4 6)"
      using f by (simp add: p3 j3 d4 cc3)
    show "score g4 = 1015 / 2"
      using t s by (simp add: e cc3 p4 f4 j3)
  qed

  have cc4: "closeCall g4 g5 6 = False"
    by (simp add: closeCall_def p4 j4 d5 b5)
  have j5: "\<not> justPassed (carStore g5 6)" "score g5 = 1255 / 2"
  proof -
    from per [OF lts(5), unfolded nths nth tks] obtain t where
      t: "\<not> isGameOver g5 \<longrightarrow>
                    t = (if speed g5 > 0 then speed g5 / 1000 * (1) * 10 else 0)"
      and s: "score g5 = score g4 +
                   500 * real (card {b \<in> carSet (segments passScene). closeCall g4 g5 b}) + t"
      and f: "if isGameOver g4 then g5 = g4
               else (justPassed (carStore g5 6) \<longleftrightarrow>
                       \<bar>relDepth g5 6\<bar> \<le> 1000 \<and>
                       (justPassed (carStore g4 6) \<or> closeCall g4 g5 6))"
      by auto
    have e: "{b \<in> carSet (segments passScene). closeCall g4 g5 b} = (if closeCall g4 g5 6 then {6} else {})"
      unfolding cs by auto
    show "\<not> justPassed (carStore g5 6)"
      using f by (simp add: p4 j4 d5 cc4)
    show "score g5 = 1255 / 2"
      using t s by (simp add: e cc4 p5 f5 j4)
  qed

  have cc5: "closeCall g5 g6 6 = False"
    by (simp add: closeCall_def p5 j5 d6 b6)
  have j6: "\<not> justPassed (carStore g6 6)" "score g6 = 1255 / 2"
  proof -
    from per [OF lts(6), unfolded nths nth tks] obtain t where
      t: "\<not> isGameOver g6 \<longrightarrow>
                    t = (if speed g6 > 0 then speed g6 / 1000 * (1) * 10 else 0)"
      and s: "score g6 = score g5 +
                   500 * real (card {b \<in> carSet (segments passScene). closeCall g5 g6 b}) + t"
      and f: "if isGameOver g5 then g6 = g5
               else (justPassed (carStore g6 6) \<longleftrightarrow>
                       \<bar>relDepth g6 6\<bar> \<le> 1000 \<and>
                       (justPassed (carStore g5 6) \<or> closeCall g5 g6 6))"
      by auto
    have e: "{b \<in> carSet (segments passScene). closeCall g5 g6 b} = (if closeCall g5 g6 6 then {6} else {})"
      unfolding cs by auto
    show "\<not> justPassed (carStore g6 6)"
      using f by (simp add: p5 j5 d6 cc5)
    show "score g6 = 1255 / 2"
      using t s by (simp add: e cc5 p6 f6 j5)
  qed

  have cc6: "closeCall g6 g7 6 = False"
    by (simp add: closeCall_def p6 j6 d7 b7)
  have j7: "\<not> justPassed (carStore g7 6)" "score g7 = 1255 / 2"
  proof -
    from per [OF lts(7), unfolded nths nth tks] obtain t where
      t: "\<not> isGameOver g7 \<longrightarrow>
                    t = (if speed g7 > 0 then speed g7 / 1000 * (1 / 8) * 10 else 0)"
      and s: "score g7 = score g6 +
                   500 * real (card {b \<in> carSet (segments passScene). closeCall g6 g7 b}) + t"
      and f: "if isGameOver g6 then g7 = g6
               else (justPassed (carStore g7 6) \<longleftrightarrow>
                       \<bar>relDepth g7 6\<bar> \<le> 1000 \<and>
                       (justPassed (carStore g6 6) \<or> closeCall g6 g7 6))"
      by auto
    have e: "{b \<in> carSet (segments passScene). closeCall g6 g7 b} = (if closeCall g6 g7 6 then {6} else {})"
      unfolding cs by auto
    show "\<not> justPassed (carStore g7 6)"
      using f by (simp add: p6 j6 d7 cc6)
    show "score g7 = 1255 / 2"
      using t s by (simp add: e cc6 p7 f7 j6)
  qed

  have cc7: "closeCall g7 g8 6 = True"
    by (simp add: closeCall_def p7 j7 d8 b8)
  have j8: "justPassed (carStore g8 6)" "score g8 = 2255 / 2"
  proof -
    from per [OF lts(8), unfolded nths nth tks] obtain t where
      t: "\<not> isGameOver g8 \<longrightarrow>
                    t = (if speed g8 > 0 then speed g8 / 1000 * (1 / 32) * 10 else 0)"
      and s: "score g8 = score g7 +
                   500 * real (card {b \<in> carSet (segments passScene). closeCall g7 g8 b}) + t"
      and f: "if isGameOver g7 then g8 = g7
               else (justPassed (carStore g8 6) \<longleftrightarrow>
                       \<bar>relDepth g8 6\<bar> \<le> 1000 \<and>
                       (justPassed (carStore g7 6) \<or> closeCall g7 g8 6))"
      by auto
    have e: "{b \<in> carSet (segments passScene). closeCall g7 g8 b} = (if closeCall g7 g8 6 then {6} else {})"
      unfolding cs by auto
    show "justPassed (carStore g8 6)"
      using f by (simp add: p7 j7 d8 cc7)
    show "score g8 = 2255 / 2"
      using t s by (simp add: e cc7 p8 f8 j7)
  qed

  have c1: "\<exists>m. 1 < m \<and> m < 7 \<and> 1000 < \<bar>relDepth (ss ! Suc m) 6\<bar>"
    by (rule C [of 1 7]) (simp add: ss cc1 cc7)
  have c2: "\<exists>!k. 0 \<le> k \<and> k < 4 \<and> closeCall (ss ! k) (ss ! Suc k) 6"
  proof (rule D [of 0 4], intro conjI)
    show "\<not> justPassed (carStore (ss ! 0) 6)" by (simp add: ss j0)
    show "\<forall>k. 0 \<le> k \<and> k < 4 \<longrightarrow> \<bar>relDepth (ss ! Suc k) 6\<bar> \<le> 1000"
    proof (intro allI impI)
      fix k :: nat assume "0 \<le> k \<and> k < 4"
      then consider "k = 0" | "k = 1" | "k = 2" | "k = 3" by linarith
      then show "\<bar>relDepth (ss ! Suc k) 6\<bar> \<le> 1000"
        by cases (simp_all add: ss d1 d2 d3 d4)
    qed
    show "\<exists>k. 0 \<le> k \<and> k < 4 \<and> \<not> isGameOver (ss ! k) \<and>
                       - 300 < relDepth (ss ! Suc k) 6 \<and> relDepth (ss ! Suc k) 6 < - 100 \<and>
                       inBand (ss ! Suc k) 6"
      by (rule exI [of _ 1]) (simp add: ss p1 d2 b2)
  qed simp_all
  have c3: "\<exists>!k. 6 \<le> k \<and> k < 8 \<and> closeCall (ss ! k) (ss ! Suc k) 6"
  proof (rule D [of 6 8], intro conjI)
    show "\<not> justPassed (carStore (ss ! 6) 6)" by (simp add: ss j6)
    show "\<forall>k. 6 \<le> k \<and> k < 8 \<longrightarrow> \<bar>relDepth (ss ! Suc k) 6\<bar> \<le> 1000"
    proof (intro allI impI)
      fix k :: nat assume "6 \<le> k \<and> k < 8"
      then consider "k = 6" | "k = 7" by linarith
      then show "\<bar>relDepth (ss ! Suc k) 6\<bar> \<le> 1000"
        by cases (simp_all add: ss d7 d8)
    qed
    show "\<exists>k. 6 \<le> k \<and> k < 8 \<and> \<not> isGameOver (ss ! k) \<and>
                       - 300 < relDepth (ss ! Suc k) 6 \<and> relDepth (ss ! Suc k) 6 < - 100 \<and>
                       inBand (ss ! Suc k) 6"
      by (rule exI [of _ 7]) (simp add: ss p7 d8 b8)
  qed simp_all
  show ?thesis
    apply (intro conjI)
       apply (rule passScene_facts(1))
      apply (rule tk)
     apply (rule a6)
    apply (rule exI [of _ "[g1, g2, g3, g4, g5, g6, g7, g8]"])
    apply (rule exI [of _ ss])
    apply (intro conjI)
               apply (rule tr)
              apply (rule ss)
             apply simp
            apply (simp add: ss passScene_facts(2) p1 p2 p3 p4 p5 p6 p7 p8)
           apply (simp add: ss d0 d1 d2 d3 d4 d5 d6 d7 d8)
          apply (simp add: b1 b2 b3 b4 b5 b6 b7 b8)
         apply (simp add: ss nths cc0 cc1 cc2 cc3 cc4 cc5 cc6 cc7)
        apply (simp add: ss j0 j1 j2 j3 j4 j5 j6 j7 j8)
       apply (simp add: ss j0 j1 j2 j3 j4 j5 j6 j7 j8)
      apply (rule c1)
     apply (rule c2)
    apply (rule c3)
    done
qed

subsection \<open>Normalised depths\<close>

lemma update_cars:
  assumes dt: "0 \<le> dt" and ok: "carsOK g" and so: "singleOwner (segments g)"
      and ng: "\<not> isGameOver g"
      and ps: "findSegment (segments g) (position g + CAMERA_DEPTH * SEGMENT_LENGTH) = Some ps"
  shows "\<exists>g'. update dt cmd g = Inr g' \<and>
           (\<forall>a \<in> carSet (segments g).
              z (carStore g' a) = advanceZ dt (real (length (segments g)) * SEGMENT_LENGTH) (carStore g a))"
proof -
  let ?g1 = "updatePlayer dt cmd ps g"
  from update_traffic_step [OF dt ok so ng ps, of cmd] obtain g2 g' where
    t: "updateTraffic dt ?g1 = Inr g2" and u: "update dt cmd g = Inr g'"
    and r: "g' = g2 \<or> g' = crash g2" by blast
  have ok1: "carsOK ?g1" using ok unfolding carsOK_def by simp
  have so1: "singleOwner (segments ?g1)" using so by simp
  from updateTraffic_ok [OF dt ok1 so1] t have
    c: "\<forall>a \<in> carSet (segments ?g1).
          z (carStore g2 a) = advanceZ dt (real (length (segments ?g1)) * SEGMENT_LENGTH) (carStore ?g1 a)"
    by auto
  have "carStore g' = carStore g2" using r by auto
  then show ?thesis using u c by simp
qed

lemma lastCar_store:
  "z (rstore lastCar 1960) = 392000" "car.speed (rstore lastCar 1960) = 8000"
  by (simp_all add: lastCar_def addCar_def SEGMENT_LENGTH_def)

lemma length_lastCar [simp]: "length (rsegments lastCar) = TOTAL_SEGMENTS"
  by (simp add: lastCar_def addCar_segments)

text \<open>
  C8. The claim is that after every step the position of the player and the depth of
  every car lie in \<open>[0, trackLength)\<close>. The player is wrapped with
  \<open>position >= trackLength\<close>, a car with \<open>car.z > trackLength\<close>: a car at depth
  392000 with speed 8000 ends a step of one second at depth 400000, the length of the
  track.
\<close>

theorem car_depth_reaches_track_length:
  "map_sum id (\<lambda>g'. z (carStore g' 1960))
     (update 1 \<lparr>steer = Num 0, accel = Num 0, brake = Num 0\<rparr> (roadGame lastCar 0 (Num 0) 0))
   = Inr (real TOTAL_SEGMENTS * SEGMENT_LENGTH)"
proof -
  let ?g = "roadGame lastCar 0 (Num 0) 0"
  have inv: "roadInv ?g"
    by (rule roadGame_inv [OF buildInv_lastCar]) (simp_all add: CONFIG)
  have ok: "carsOK ?g" and so: "singleOwner (segments ?g)" using inv unfolding roadInv_def by auto
  have "findSegment (rsegments lastCar) (0 + CAMERA_DEPTH * SEGMENT_LENGTH)
          = Some (rsegments lastCar ! nat \<lfloor>(0 + CAMERA_DEPTH * SEGMENT_LENGTH) / SEGMENT_LENGTH\<rfloor>)"
    by (rule findSegment_nth) (simp_all add: CONFIG)
  then have ps: "findSegment (segments ?g) (position ?g + CAMERA_DEPTH * SEGMENT_LENGTH)
          = Some (rsegments lastCar ! nat \<lfloor>(0 + CAMERA_DEPTH * SEGMENT_LENGTH) / SEGMENT_LENGTH\<rfloor>)"
    by simp
  from update_cars [OF _ ok so roadGame_fields(6) ps, of 1 "\<lparr>steer = Num 0, accel = Num 0, brake = Num 0\<rparr>"]
  obtain g' where u: "update 1 \<lparr>steer = Num 0, accel = Num 0, brake = Num 0\<rparr> ?g = Inr g'"
    and c: "\<forall>a \<in> carSet (segments ?g).
              z (carStore g' a) = advanceZ 1 (real (length (segments ?g)) * SEGMENT_LENGTH) (carStore ?g a)"
    by auto
  have "z (carStore g' 1960) = advanceZ 1 (real TOTAL_SEGMENTS * SEGMENT_LENGTH) (rstore lastCar 1960)"
    using c by (simp add: carSet_lastCar)
  also have "\<dots> = real TOTAL_SEGMENTS * SEGMENT_LENGTH"
    by (simp add: advanceZ_def Let_def lastCar_store CONFIG)
  finally show ?thesis using u by simp
qed

subsection \<open>Projection and culling\<close>

lemma jle_Num [simp]: "jle a NaN = False"
  by (cases a) simp_all

lemma jge_simps [simp]: "jge (Num a) (Num b) = (b \<le> a)" "jge NaN y = False" "jge x NaN = False"
  by (simp_all add: jge_def)

lemma project_camera_z:
  "camera_z (project p cameraX cameraY cameraZ cameraDepth w h roadWidth) = Num (world_z p - cameraZ)"
  by (simp add: project_def Let_def)

lemma project_behind:
  "world_z p - cameraZ \<le> 0 \<Longrightarrow>
   project p cameraX cameraY cameraZ cameraDepth w h roadWidth =
     p\<lparr>camera_x := jsub (Num 0) cameraX, camera_y := Num (world_y p - cameraY),
       camera_z := Num (world_z p - cameraZ), screen_scale := Num 0\<rparr>"
  by (simp add: project_def Let_def)

lemma roadStep_drawn:
  "rs_drawn (roadStep g b py n st) = rs_drawn st \<or>
   (\<exists>s. rs_drawn (roadStep g b py n st) = rs_drawn st @ [s] \<and> jgt (camera_z (p1 s)) (Num CAMERA_DEPTH))"
proof -
  let ?segs = "rs_segments st"
  let ?k = "(index b + n) mod length ?segs"
  let ?off = "(if index (?segs ! ?k) < index b then real (length ?segs) * SEGMENT_LENGTH else 0)"
  let ?cx = "jsub (jmul (playerX g) (Num ROAD_WIDTH)) (Num (rs_x st + rs_dx st))"
  let ?q1 = "project (p1 (?segs ! ?k)) ?cx (py + CAMERA_HEIGHT) (position g - ?off)
               CAMERA_DEPTH (width g) (height g) ROAD_WIDTH"
  have cz: "camera_z ?q1 = Num (world_z (p1 (?segs ! ?k)) - (position g - ?off))"
    by (rule project_camera_z)
  show ?thesis
    unfolding roadStep_def Let_def
    by (simp add: cz not_le del: jle.simps)
       (simp add: cz [simplified])
qed


lemma fold_roadStep_drawn:
  "\<exists>new. rs_drawn (fold (roadStep g b py) ns st) = rs_drawn st @ new \<and>
         (\<forall>s \<in> set new. jgt (camera_z (p1 s)) (Num CAMERA_DEPTH))"
proof (induction ns arbitrary: st)
  case Nil
  show ?case by simp
next
  case (Cons n ns)
  from Cons.IH [of "roadStep g b py n st"] obtain new where
    n: "rs_drawn (fold (roadStep g b py) ns (roadStep g b py n st)) = rs_drawn (roadStep g b py n st) @ new"
       "\<forall>s \<in> set new. jgt (camera_z (p1 s)) (Num CAMERA_DEPTH)" by blast
  from roadStep_drawn [of g b py n st] show ?case
  proof
    assume "rs_drawn (roadStep g b py n st) = rs_drawn st"
    then show ?thesis using n by simp
  next
    assume "\<exists>s. rs_drawn (roadStep g b py n st) = rs_drawn st @ [s] \<and> jgt (camera_z (p1 s)) (Num CAMERA_DEPTH)"
    then obtain s where s: "rs_drawn (roadStep g b py n st) = rs_drawn st @ [s]"
      "jgt (camera_z (p1 s)) (Num CAMERA_DEPTH)" by blast
    have "rs_drawn (fold (roadStep g b py) (n # ns) st) = rs_drawn st @ (s # new)"
      using n(1) s(1) by simp
    moreover have "\<forall>t \<in> set (s # new). jgt (camera_z (p1 t)) (Num CAMERA_DEPTH)"
      using n(2) s(2) by simp
    ultimately show ?thesis by blast
  qed
qed

lemma jgt_depth: "jgt v (Num CAMERA_DEPTH) \<Longrightarrow> jgt v (Num 0)"
  by (cases v) (simp_all add: CAMERA_DEPTH_def)

text \<open>
  C9. If the camera-space depth of a point, its world depth minus the camera depth, is at
  most 0, \<open>project\<close> sets the camera coordinates and the screen scale 0 and leaves
  the screen coordinates and the screen width as they were: no division takes place.
  Whenever \<open>render\<close> returns, every segment its road pass has drawn has a near edge
  at a camera-space depth above 0 (above the camera depth 0.84, in fact).
\<close>

theorem behind_camera_not_rendered:
  "(world_z p - cameraZ \<le> 0 \<longrightarrow>
      project p cameraX cameraY cameraZ cameraDepth w h roadWidth =
        p\<lparr>camera_x := jsub (Num 0) cameraX, camera_y := Num (world_y p - cameraY),
          camera_z := Num (world_z p - cameraZ), screen_scale := Num 0\<rparr>) \<and>
   (\<forall>segs drawn. render g = Inr (segs, drawn) \<longrightarrow>
      (\<forall>s \<in> set drawn. jgt (camera_z (p1 s)) (Num 0)))"
proof (intro conjI impI allI)
  assume "world_z p - cameraZ \<le> 0"
  then show "project p cameraX cameraY cameraZ cameraDepth w h roadWidth =
        p\<lparr>camera_x := jsub (Num 0) cameraX, camera_y := Num (world_y p - cameraY),
          camera_z := Num (world_z p - cameraZ), screen_scale := Num 0\<rparr>"
    by (rule project_behind)
next
  fix segs drawn assume r: "render g = Inr (segs, drawn)"
  then obtain b py st0 where d: "drawn = rs_drawn (fold (roadStep g b py) [0 ..< DRAW_DISTANCE] st0)"
    and e: "rs_drawn st0 = []"
    by (auto simp: render_def Let_def split: option.splits)
  from fold_roadStep_drawn [of g b py "[0 ..< DRAW_DISTANCE]" st0] obtain new where
    "drawn = new" "\<forall>s \<in> set new. jgt (camera_z (p1 s)) (Num CAMERA_DEPTH)"
    unfolding d e by auto
  then show "\<forall>s \<in> set drawn. jgt (camera_z (p1 s)) (Num 0)"
    using jgt_depth by blast
qed

lemma split_draw: "[0 ..< DRAW_DISTANCE] = [0, 1, 2, 3, 4] @ [5 ..< DRAW_DISTANCE]"
  unfolding DRAW_DISTANCE_def by code_simp

lemma openRoad_base:
  "findSegment (segments (openRoad 0 (Num 0) 0)) (position (openRoad 0 (Num 0) 0)) = Some (newSegment 0)"
  "findSegment (segments (openRoad 0 (Num 0) 0))
     (position (openRoad 0 (Num 0) 0) + CAMERA_DEPTH * SEGMENT_LENGTH) = Some (newSegment 0)"
  using findSegment_openRoad [of 0] findSegment_openRoad [of "CAMERA_DEPTH * SEGMENT_LENGTH"]
  by (simp_all add: CONFIG)

lemma firstFive_drawn: "map index (rs_drawn firstFive) = [4]"
  unfolding firstFive_def
  by (simp add: roadStep_def Let_def project_def newSegment_def newPoint_def curveAt_def CONFIG
      nth_list_update openRoad_def blankGame_def)


lemma render_openRoad:
  "render (openRoad 0 (Num 0) 0) =
     Inr (rs_segments (fold (roadStep (openRoad 0 (Num 0) 0) (newSegment 0) 0) [5 ..< DRAW_DISTANCE] firstFive),
          rs_drawn (fold (roadStep (openRoad 0 (Num 0) 0) (newSegment 0) 0) [5 ..< DRAW_DISTANCE] firstFive))"
proof -
  have b: "percentRemaining (position (openRoad 0 (Num 0) 0)) SEGMENT_LENGTH = 0"
    by (simp add: percentRemaining_def js_fmod_def)
  have y: "interpolate (world_y (p1 (newSegment 0))) (world_y (p2 (newSegment 0))) pct = 0" for pct
    by (simp add: interpolate_def newSegment_def newPoint_def)
  show ?thesis
    unfolding render_def openRoad_base option.case Let_def b y split_draw fold_append comp_def firstFive_def
    by simp
qed

theorem behind_camera_not_rendered_witness:
  "world_z (newPoint 0) - 100 \<le> 0 \<and>
   project (newPoint 0) (Num 0) 1000 100 (84 / 100) 1280 720 2000 =
     (newPoint 0)\<lparr>camera_x := Num 0, camera_y := Num (- 1000), camera_z := Num (- 100),
                   screen_scale := Num 0\<rparr> \<and>
   (\<exists>segs drawn. render (openRoad 0 (Num 0) 0) = Inr (segs, drawn) \<and>
      map index (take 1 drawn) = [4] \<and>
      (\<forall>s \<in> set drawn. jgt (camera_z (p1 s)) (Num 0)))"
proof -
  let ?R = "fold (roadStep (openRoad 0 (Num 0) 0) (newSegment 0) 0) [5 ..< DRAW_DISTANCE] firstFive"
  note t = behind_camera_not_rendered [where p = "newPoint 0" and cameraX = "Num 0" and cameraY = 1000
      and cameraZ = 100 and cameraDepth = "84 / 100" and w = 1280 and h = 720 and roadWidth = 2000
      and g = "openRoad 0 (Num 0) 0"]
  have 1: "world_z (newPoint 0) - 100 \<le> 0" by (simp add: newPoint_def)
  have 2: "project (newPoint 0) (Num 0) 1000 100 (84 / 100) 1280 720 2000 =
     (newPoint 0)\<lparr>camera_x := Num 0, camera_y := Num (- 1000), camera_z := Num (- 100),
                   screen_scale := Num 0\<rparr>"
    using t 1 by (simp add: newPoint_def)
  have 3: "\<forall>s \<in> set (rs_drawn ?R). jgt (camera_z (p1 s)) (Num 0)"
    using t render_openRoad by blast
  from fold_roadStep_drawn [of "openRoad 0 (Num 0) 0" "newSegment 0" 0 "[5 ..< DRAW_DISTANCE]" firstFive]
  obtain new where n: "rs_drawn ?R = rs_drawn firstFive @ new" by blast
  obtain s where s: "rs_drawn firstFive = [s]" "index s = 4"
    using firstFive_drawn by (cases "rs_drawn firstFive") auto
  have 4: "map index (take 1 (rs_drawn ?R)) = [4]"
    unfolding n s by (simp add: s)
  have "\<exists>segs drawn. render (openRoad 0 (Num 0) 0) = Inr (segs, drawn) \<and>
      map index (take 1 drawn) = [4] \<and>
      (\<forall>s \<in> set drawn. jgt (camera_z (p1 s)) (Num 0))"
    by (rule exI [of _ "rs_segments ?R"], rule exI [of _ "rs_drawn ?R"])
       (intro conjI render_openRoad 4 3)
  then show ?thesis using 1 2 by simp
qed

end
